theory Spec2Isabelle
  imports Main "HOL-Library.Word"
begin

section \<open>The HTTP request and its setters\<close>

text \<open>
  The parser \<^verbatim>\<open>HttpContext::parseRequest\<close> populates an \<^verbatim>\<open>HttpRequest\<close>. The class
  \<^verbatim>\<open>HttpRequest\<close> is declared in a header that is not part of the sources at hand; its fields and
  setters are modelled from the specification's data model (section 3) and from the way the
  parser calls them. A trailing underscore is not a legal Isabelle name, so the members
  \<^verbatim>\<open>state_\<close> and \<^verbatim>\<open>request_\<close> are called \<open>state\<close> and \<open>request\<close>.
\<close>

type_synonym Timestamp = int

datatype Method = kInvalid | kGet | kPost | kHead | kPut | kDelete

text \<open>
  Modelled from the spec: the fields of \<^verbatim>\<open>HttpRequest\<close> (HttpRequest.h is missing). The
  content length is "a non-negative integer"; it is taken as an unsigned 64-bit machine integer,
  the type into which the \<^verbatim>\<open>int\<close> returned by \<^verbatim>\<open>std::stoi\<close> is converted.
\<close>

record HttpRequest =
  "method" :: Method
  version :: string
  path :: string
  queryParameters :: "string \<rightharpoonup> string"
  receiveTime :: Timestamp
  headers :: "string \<rightharpoonup> string"
  body :: string
  contentLength :: "64 word"

definition HttpRequest_init :: HttpRequest where
  "HttpRequest_init =
     \<lparr>method = kInvalid, version = [], path = [], queryParameters = Map.empty,
      receiveTime = 0, headers = Map.empty, body = [], contentLength = 0\<rparr>"

text \<open>
  \<^verbatim>\<open>std::find(first, last, c)\<close> on a character range: the index of the first occurrence of
  \<open>c\<close>, or the length of the range (the position \<^verbatim>\<open>last\<close>) when there is none.
\<close>

definition find_char :: "char \<Rightarrow> string \<Rightarrow> nat" where
  "find_char c s = length (takeWhile (\<lambda>x. x \<noteq> c) s)"

text \<open>
  Modelled from the spec: \<^verbatim>\<open>HttpRequest::setMethod\<close> (HttpRequest.cpp is missing). The method
  names are those the specification lists (GET, POST, PUT, HEAD, DELETE); any other token is
  not recognised, and the call reports whether the method was recognised.
\<close>

definition methodOfString :: "string \<Rightarrow> Method" where
  "methodOfString m =
     (if m = ''GET'' then kGet
      else if m = ''POST'' then kPost
      else if m = ''HEAD'' then kHead
      else if m = ''PUT'' then kPut
      else if m = ''DELETE'' then kDelete
      else kInvalid)"

definition setMethod :: "HttpRequest \<Rightarrow> string \<Rightarrow> bool \<times> HttpRequest" where
  "setMethod req m =
     (methodOfString m \<noteq> kInvalid, req\<lparr>method := methodOfString m\<rparr>)"

text \<open>Modelled from the spec: \<^verbatim>\<open>HttpRequest::setPath\<close>, which stores the path.\<close>

definition setPath :: "HttpRequest \<Rightarrow> string \<Rightarrow> HttpRequest" where
  "setPath req p = req\<lparr>path := p\<rparr>"

text \<open>
  Modelled from the spec: \<^verbatim>\<open>HttpRequest::setQueryParameters\<close>. The query string is a
  sequence of \<^verbatim>\<open>key=value\<close> pairs separated by \<^verbatim>\<open>&\<close>; each pair is stored in the mapping,
  the last duplicate winning. A piece without \<^verbatim>\<open>=\<close> stores nothing.
\<close>

fun splitOn :: "char \<Rightarrow> string \<Rightarrow> string list" where
  "splitOn c [] = [[]]"
| "splitOn c (x # xs) =
     (if x = c then [] # splitOn c xs
      else (case splitOn c xs of [] \<Rightarrow> [[x]] | p # ps \<Rightarrow> (x # p) # ps))"

definition storePair :: "(string \<rightharpoonup> string) \<Rightarrow> string \<Rightarrow> (string \<rightharpoonup> string)" where
  "storePair m pair =
     (let eq = find_char (CHR ''='') pair
      in if eq \<noteq> length pair then m(take eq pair \<mapsto> drop (eq + 1) pair) else m)"

definition setQueryParameters :: "HttpRequest \<Rightarrow> string \<Rightarrow> HttpRequest" where
  "setQueryParameters req q =
     req\<lparr>queryParameters := foldl storePair (queryParameters req) (splitOn (CHR ''&'') q)\<rparr>"

text \<open>
  Modelled from the spec: \<^verbatim>\<open>HttpRequest::addHeader(start, colon, end)\<close>. The substring before
  the first colon is the header name, the remainder after the colon is the value, stored
  untrimmed; a duplicate name overwrites. The line is passed with the index of its colon.
\<close>

definition addHeader :: "HttpRequest \<Rightarrow> string \<Rightarrow> nat \<Rightarrow> HttpRequest" where
  "addHeader req line colon =
     req\<lparr>headers := (headers req)(take colon line \<mapsto> drop (colon + 1) line)\<rparr>"

text \<open>
  Modelled from the spec: \<^verbatim>\<open>HttpRequest::getHeader\<close>. The parser tests the returned string
  with \<^verbatim>\<open>empty()\<close> to detect an absent header, so an absent name yields the empty string.
\<close>

definition getHeader :: "HttpRequest \<Rightarrow> string \<Rightarrow> string" where
  "getHeader req name = (case headers req name of None \<Rightarrow> [] | Some v \<Rightarrow> v)"

text \<open>Modelled from the spec: the remaining setters store their argument.\<close>

definition setVersion :: "HttpRequest \<Rightarrow> string \<Rightarrow> HttpRequest" where
  "setVersion req v = req\<lparr>version := v\<rparr>"

definition setContentLength :: "HttpRequest \<Rightarrow> 64 word \<Rightarrow> HttpRequest" where
  "setContentLength req n = req\<lparr>contentLength := n\<rparr>"

definition setBody :: "HttpRequest \<Rightarrow> string \<Rightarrow> HttpRequest" where
  "setBody req b = req\<lparr>body := b\<rparr>"

definition setReceiveTime :: "HttpRequest \<Rightarrow> Timestamp \<Rightarrow> HttpRequest" where
  "setReceiveTime req t = req\<lparr>receiveTime := t\<rparr>"

section \<open>Library functions used by the parser\<close>

text \<open>
  \<^verbatim>\<open>std::stoi\<close> (base 10): leading white space is skipped, an optional sign is read, then the
  longest run of decimal digits; what follows the digits is ignored. With no digit the call
  throws \<^verbatim>\<open>std::invalid_argument\<close>; a value outside the range of a 32-bit \<^verbatim>\<open>int\<close> throws
  \<^verbatim>\<open>std::out_of_range\<close>.
\<close>

datatype exn = invalid_argument | out_of_range

definition isspace :: "char \<Rightarrow> bool" where
  "isspace c \<longleftrightarrow> c \<in> {CHR '' '', CHR 0x09, CHR 0x0A, CHR 0x0B, CHR 0x0C, CHR 0x0D}"

definition isdigit :: "char \<Rightarrow> bool" where
  "isdigit c \<longleftrightarrow> (48::nat) \<le> of_char c \<and> of_char c \<le> (57::nat)"

definition digitsValue :: "string \<Rightarrow> nat" where
  "digitsValue ds = foldl (\<lambda>a d. 10 * a + (of_char d - 48)) 0 ds"

definition stoi :: "string \<Rightarrow> exn + int" where
  "stoi s =
     (let s1 = dropWhile isspace s;
          neg = (s1 \<noteq> [] \<and> hd s1 = CHR ''-'');
          s2 = (if s1 \<noteq> [] \<and> (hd s1 = CHR ''-'' \<or> hd s1 = CHR ''+'') then tl s1 else s1);
          ds = takeWhile isdigit s2
      in if ds = [] then Inl invalid_argument
         else let v = (if neg then - int (digitsValue ds) else int (digitsValue ds))
              in if v < - (2 ^ 31) \<or> 2 ^ 31 - 1 < v then Inl out_of_range else Inr v)"

text \<open>
  The \<^verbatim>\<open>muduo::net::Buffer\<close> is seen through its readable bytes, the range from \<^verbatim>\<open>peek()\<close> to
  the write position. \<^verbatim>\<open>findCRLF\<close> searches that range for the first carriage return
  followed by a line feed and returns its offset, or nothing (a null pointer).
  \<^verbatim>\<open>retrieveUntil(crlf + 2)\<close> and \<^verbatim>\<open>retrieve(n)\<close> drop bytes from the front.
\<close>

type_synonym Buffer = string

abbreviation CR :: char where "CR \<equiv> CHR 0x0D"

abbreviation LF :: char where "LF \<equiv> CHR 0x0A"

fun findCRLF :: "Buffer \<Rightarrow> nat option" where
  "findCRLF (a # b # cs) =
     (if a = CR \<and> b = LF then Some 0 else map_option Suc (findCRLF (b # cs)))"
| "findCRLF cs = None"

section \<open>The request parser\<close>

datatype HttpRequestParseState = kExpectRequestLine | kExpectHeaders | kExpectBody | kGotAll

record HttpContext =
  state :: HttpRequestParseState
  request :: HttpRequest

definition HttpContext_init :: HttpContext where
  "HttpContext_init = \<lparr>state = kExpectRequestLine, request = HttpRequest_init\<rparr>"

text \<open>
  \<^verbatim>\<open>HttpContext::processRequestLine(begin, end)\<close> on the bytes of the line (without its
  terminator). The request is updated in place by the setters, also when the line is
  rejected later, so the function returns the flag and the request.
\<close>

definition processRequestLine :: "HttpRequest \<Rightarrow> string \<Rightarrow> bool \<times> HttpRequest" where
  "processRequestLine req line =
     (let space = find_char (CHR '' '') line
      in if space \<noteq> length line then
           (case setMethod req (take space line) of
              (False, req1) \<Rightarrow> (False, req1)
            | (True, req1) \<Rightarrow>
                let start = drop (space + 1) line;
                    space2 = find_char (CHR '' '') start
                in if space2 \<noteq> length start then
                     let target = take space2 start;
                         argumentStart = find_char (CHR ''?'') target;
                         req2 = (if argumentStart \<noteq> length target
                                 then setQueryParameters
                                        (setPath req1 (take argumentStart target))
                                        (drop (argumentStart + 1) target)
                                 else setPath req1 target);
                         ver = drop (space2 + 1) start
                     in if length ver = 8 \<and> take 7 ver = ''HTTP/1.'' then
                          (if last ver = CHR ''1'' then (True, setVersion req2 ''HTTP/1.1'')
                           else if last ver = CHR ''0'' then (True, setVersion req2 ''HTTP/1.0'')
                           else (False, req2))
                        else (False, req2)
                   else (False, req1))
         else (False, req))"

text \<open>
  One iteration of the \<^verbatim>\<open>while (hasMore)\<close> loop of \<^verbatim>\<open>HttpContext::parseRequest\<close>. At
  the head of every iteration \<^verbatim>\<open>ok\<close> is true (each assignment of false to \<^verbatim>\<open>ok\<close> also
  clears \<^verbatim>\<open>hasMore\<close>), so an iteration either goes round again (\<open>Continue\<close>), leaves the
  loop and returns a flag (\<open>Return\<close>), or is left by the exception of \<^verbatim>\<open>std::stoi\<close>
  (\<open>Throw\<close>), which nothing in the function catches. In state \<^verbatim>\<open>kGotAll\<close> no branch of the
  loop body applies and \<^verbatim>\<open>hasMore\<close> stays true.
\<close>

datatype step_result =
    Continue HttpContext Buffer
  | Return bool HttpContext Buffer
  | Throw exn HttpContext Buffer

definition parseStep :: "Timestamp \<Rightarrow> HttpContext \<Rightarrow> Buffer \<Rightarrow> step_result" where
  "parseStep rt c buf =
     (case state c of
        kExpectRequestLine \<Rightarrow>
          (case findCRLF buf of
             Some crlf \<Rightarrow>
               (case processRequestLine (request c) (take crlf buf) of
                  (True, req) \<Rightarrow>
                    Continue (c\<lparr>request := setReceiveTime req rt,
                                state := kExpectHeaders\<rparr>)
                             (drop (crlf + 2) buf)
                | (False, req) \<Rightarrow> Return False (c\<lparr>request := req\<rparr>) buf)
           | None \<Rightarrow> Return True c buf)
      | kExpectHeaders \<Rightarrow>
          (case findCRLF buf of
             Some crlf \<Rightarrow>
               (let colon = find_char (CHR '':'') (take crlf buf)
                in if colon < crlf then
                     Continue (c\<lparr>request := addHeader (request c) (take crlf buf) colon\<rparr>)
                              (drop (crlf + 2) buf)
                   else if crlf = 0 then
                     (if method (request c) = kPost \<or> method (request c) = kPut then
                        (let cl = getHeader (request c) ''Content-Length''
                         in if cl \<noteq> [] then
                              (case stoi cl of
                                 Inl e \<Rightarrow> Throw e c buf
                               | Inr n \<Rightarrow>
                                   (let req = setContentLength (request c) (word_of_int n)
                                    in if contentLength req > 0 then
                                         Continue (c\<lparr>request := req, state := kExpectBody\<rparr>)
                                                  (drop (crlf + 2) buf)
                                       else
                                         Return True (c\<lparr>request := req, state := kGotAll\<rparr>)
                                                (drop (crlf + 2) buf)))
                            else Return False c (drop (crlf + 2) buf))
                      else Return True (c\<lparr>state := kGotAll\<rparr>) (drop (crlf + 2) buf))
                   else Return False c (drop (crlf + 2) buf))
           | None \<Rightarrow> Return True c buf)
      | kExpectBody \<Rightarrow>
          (if length buf < unat (contentLength (request c)) then Return True c buf
           else
             Return True
               (c\<lparr>request := setBody (request c) (take (unat (contentLength (request c))) buf),
                  state := kGotAll\<rparr>)
               (drop (unat (contentLength (request c))) buf))
      | kGotAll \<Rightarrow> Continue c buf)"

text \<open>
  How a call of \<^verbatim>\<open>parseRequest\<close> ends: with the returned flag, or with the exception that
  escapes it. The context and the buffer are objects of the caller and keep the updates made
  before the call ended.
\<close>

datatype outcome = Returned bool | Threw exn

text \<open>
  The loop itself. It need not terminate (in state \<^verbatim>\<open>kGotAll\<close> it spins), so it is a
  partial function: \<open>None\<close> is a call that never returns.
\<close>

partial_function (option) parseLoop ::
  "Timestamp \<Rightarrow> HttpContext \<Rightarrow> Buffer \<Rightarrow> (outcome \<times> HttpContext \<times> Buffer) option" where
  "parseLoop rt c buf =
     (case parseStep rt c buf of
        Continue c' buf' \<Rightarrow> parseLoop rt c' buf'
      | Return ok c' buf' \<Rightarrow> Some (Returned ok, c', buf')
      | Throw e c' buf' \<Rightarrow> Some (Threw e, c', buf'))"

definition parseRequest ::
  "HttpContext \<Rightarrow> Buffer \<Rightarrow> Timestamp \<Rightarrow> (outcome \<times> HttpContext \<times> Buffer) option" where
  "parseRequest c buf rt = parseLoop rt c buf"

section \<open>Notions used to state the properties of the parser\<close>

text \<open>
  The condition the specification puts on the version substring of the request line: exactly
  8 characters, the first 7 of them \<^verbatim>\<open>HTTP/1.\<close>, the last one \<^verbatim>\<open>0\<close> or \<^verbatim>\<open>1\<close>.
\<close>

definition versionOk :: "string \<Rightarrow> bool" where
  "versionOk ver \<longleftrightarrow> length ver = 8 \<and> take 7 ver = ''HTTP/1.'' \<and> (last ver = CHR ''0'' \<or> last ver = CHR ''1'')"

text \<open>
  What \<^verbatim>\<open>processRequestLine\<close> does with the target (the bytes between the two spaces): the
  part before the first \<^verbatim>\<open>?\<close> is the path, the part after it the query.
\<close>

definition targetRequest :: "HttpRequest \<Rightarrow> string \<Rightarrow> HttpRequest" where
  "targetRequest req target =
     (if find_char (CHR ''?'') target \<noteq> length target
      then setQueryParameters (setPath req (take (find_char (CHR ''?'') target) target))
             (drop (find_char (CHR ''?'') target + 1) target)
      else setPath req target)"

text \<open>
  The parser cannot go on with the bytes it has: no complete line while a line is expected,
  fewer bytes than the content length while the body is expected.
\<close>

definition needMore :: "HttpContext \<Rightarrow> Buffer \<Rightarrow> bool" where
  "needMore c buf \<longleftrightarrow>
     (case state c of
        kExpectRequestLine \<Rightarrow> findCRLF buf = None
      | kExpectHeaders \<Rightarrow> findCRLF buf = None
      | kExpectBody \<Rightarrow> length buf < unat (contentLength (request c))
      | kGotAll \<Rightarrow> False)"

text \<open>The result of a step with more bytes behind the unconsumed ones.\<close>

fun appendBuf :: "step_result \<Rightarrow> Buffer \<Rightarrow> step_result" where
  "appendBuf (Continue c b) b2 = Continue c (b @ b2)"
| "appendBuf (Return ok c b) b2 = Return ok c (b @ b2)"
| "appendBuf (Throw e c b) b2 = Throw e c (b @ b2)"

text \<open>A context with the receive time of its request replaced.\<close>

definition withTime :: "Timestamp \<Rightarrow> HttpContext \<Rightarrow> HttpContext" where
  "withTime t c = c\<lparr>request := (request c)\<lparr>receiveTime := t\<rparr>\<rparr>"

text \<open>A function applied to the context of a step result.\<close>

fun mapStep :: "(HttpContext \<Rightarrow> HttpContext) \<Rightarrow> step_result \<Rightarrow> step_result" where
  "mapStep f (Continue c b) = Continue (f c) b"
| "mapStep f (Return ok c b) = Return ok (f c) b"
| "mapStep f (Throw e c b) = Throw e (f c) b"

text \<open>Two contexts that differ at most in the receive time of the request.\<close>

definition sameButTime :: "HttpContext \<Rightarrow> HttpContext \<Rightarrow> bool" where
  "sameButTime c1 c2 \<longleftrightarrow> withTime 0 c1 = withTime 0 c2"

text \<open>The result of a call with the receive time of its request set to 0.\<close>

definition forgetResult ::
  "(outcome \<times> HttpContext \<times> Buffer) option \<Rightarrow> (outcome \<times> HttpContext \<times> Buffer) option" where
  "forgetResult r = map_option (\<lambda>(out, c, b). (out, withTime 0 c, b)) r"

text \<open>
  The network layer delivers the bytes of a connection in fragments: each fragment is
  appended to the buffer of the connection and \<^verbatim>\<open>parseRequest\<close> is called with the time the
  fragment arrived. The caller goes on while the calls return true and stops at the first
  call that returns false or throws. With no fragment no call is made.
\<close>

fun feedAll ::
  "HttpContext \<Rightarrow> Buffer \<Rightarrow> (Timestamp \<times> string) list \<Rightarrow> (outcome \<times> HttpContext \<times> Buffer) option" where
  "feedAll c buf [] = Some (Returned True, c, buf)"
| "feedAll c buf ((rt, bytes) # fs) =
     (case parseRequest c (buf @ bytes) rt of
        None \<Rightarrow> None
      | Some (Returned True, c', buf') \<Rightarrow> feedAll c' buf' fs
      | Some (Returned False, c', buf') \<Rightarrow> Some (Returned False, c', buf')
      | Some (Threw e, c', buf') \<Rightarrow> Some (Threw e, c', buf'))"

text \<open>A call that returned true without completing the message.\<close>

definition pending :: "(outcome \<times> HttpContext \<times> Buffer) option \<Rightarrow> bool" where
  "pending r \<longleftrightarrow> (\<exists>c b. r = Some (Returned True, c, b) \<and> state c \<noteq> kGotAll)"

text \<open>
  A GET request without a body, as bytes: the request line \<^verbatim>\<open>GET target HTTP/1.v\<close>, the
  header lines, each followed by CR LF, and the empty line.
\<close>

definition headerBytes :: "string list \<Rightarrow> string" where
  "headerBytes ls = concat (map (\<lambda>l. l @ [CR, LF]) ls)"

definition getRequestBytes :: "string \<Rightarrow> char \<Rightarrow> string list \<Rightarrow> string" where
  "getRequestBytes target v ls =
     ''GET '' @ target @ '' HTTP/1.'' @ [v] @ [CR, LF] @ headerBytes ls @ [CR, LF]"

text \<open>
  The request is valid: the target has no space, the version digit is \<^verbatim>\<open>0\<close> or \<^verbatim>\<open>1\<close>, the
  request line holds no CR LF, and every header line holds a colon and no CR LF.
\<close>

definition validGet :: "string \<Rightarrow> char \<Rightarrow> string list \<Rightarrow> bool" where
  "validGet target v ls \<longleftrightarrow>
     CHR '' '' \<notin> set target \<and> (v = CHR ''0'' \<or> v = CHR ''1'') \<and>
     findCRLF (''GET '' @ target @ '' HTTP/1.'' @ [v]) = None \<and>
     (\<forall>l \<in> set ls. CHR '':'' \<in> set l \<and> findCRLF l = None)"

text \<open>The call of \<^verbatim>\<open>addHeader\<close> the parser makes for a header line.\<close>

definition addHeaderLine :: "HttpRequest \<Rightarrow> string \<Rightarrow> HttpRequest" where
  "addHeaderLine req l = addHeader req l (find_char (CHR '':'') l)"

text \<open>The request a single call builds from a valid GET request.\<close>

definition parsedGet :: "Timestamp \<Rightarrow> string \<Rightarrow> char \<Rightarrow> string list \<Rightarrow> HttpRequest" where
  "parsedGet rt target v ls =
     foldl addHeaderLine
       (setReceiveTime
          (setVersion (targetRequest (HttpRequest_init\<lparr>method := kGet\<rparr>) target) (''HTTP/1.'' @ [v]))
          rt) ls"

text \<open>
  Two requests with the same method, path, query parameters, version and headers.
\<close>

definition sameParsed :: "HttpRequest \<Rightarrow> HttpRequest \<Rightarrow> bool" where
  "sameParsed r1 r2 \<longleftrightarrow>
     method r1 = method r2 \<and> path r1 = path r2 \<and> queryParameters r1 = queryParameters r2 \<and>
     version r1 = version r2 \<and> headers r1 = headers r2"

text \<open>
  What holds of every context a fresh parser reaches: the body is empty until the message is
  complete, the content length is not set before the headers have ended, and in a complete
  message the content length is the length of the body.
\<close>

definition parserInv :: "HttpContext \<Rightarrow> bool" where
  "parserInv c \<longleftrightarrow>
     (case state c of
        kGotAll \<Rightarrow> unat (contentLength (request c)) = length (body (request c))
      | kExpectBody \<Rightarrow> body (request c) = []
      | _ \<Rightarrow> body (request c) = [] \<and> contentLength (request c) = 0)"

text \<open>The context and the buffer of a step result.\<close>

fun contextOf :: "step_result \<Rightarrow> HttpContext" where
  "contextOf (Continue c b) = c"
| "contextOf (Return ok c b) = c"
| "contextOf (Throw e c b) = c"

fun bufferOf :: "step_result \<Rightarrow> Buffer" where
  "bufferOf (Continue c b) = b"
| "bufferOf (Return ok c b) = b"
| "bufferOf (Throw e c b) = b"

section \<open>The database connection pool\<close>

text \<open>
  \<^verbatim>\<open>DbConnectionPool\<close> keeps its idle connections in a queue guarded by a mutex; callers that
  find the queue empty wait on a condition variable. The code between taking and releasing
  the mutex runs without interference, so each such section is one atomic transition of the
  model; \<^verbatim>\<open>ping\<close> and \<^verbatim>\<open>reconnect\<close> run outside the mutex on a connection that the caller has
  already taken out of the queue, touch no member of the pool, and are modelled by their
  outcome. The wait for the mutex itself, which matters only while the check thread sleeps
  with the mutex, is added to this model further below (\<open>locked_world\<close>).

  A connection (a \<^verbatim>\<open>shared_ptr<DbConnection>\<close>) is the identity of its object: the index of
  the object in the list of all \<^verbatim>\<open>DbConnection\<close> objects constructed so far. The object
  records the arguments of its constructor.
\<close>

type_synonym conn = nat

type_synonym DbConnection = "string \<times> string \<times> string \<times> string"

text \<open>A call of \<^verbatim>\<open>getConnection\<close> is named by an identifier; a thread may make many calls.\<close>

type_synonym call_id = nat

text \<open>
  The members of the pool, without the trailing underscore of their names. The member
  \<open>cv\<close> is the condition variable \<^verbatim>\<open>cv_\<close>, seen as the list of the calls blocked in
  \<^verbatim>\<open>cv_.wait\<close>.
\<close>

record DbConnectionPool =
  host :: string
  user :: string
  password :: string
  database :: string
  connections :: "conn list"
  initialized :: bool
  cv :: "call_id list"

text \<open>
  Modelled from the spec: the errors of the pool and of its collaborators. \<^verbatim>\<open>DbException\<close>
  (DbException.h is missing) and the errors of \<^verbatim>\<open>ping\<close> and \<^verbatim>\<open>reconnect\<close> are exceptions derived from
  \<^verbatim>\<open>std::exception\<close>, which is what the handler in \<^verbatim>\<open>getConnection\<close> catches; the string is the
  message.
\<close>

datatype exception = DbException string

text \<open>
  Modelled from the spec: the contract of the collaborator \<^verbatim>\<open>DbConnection\<close> (DbConnection.h
  is missing): \<^verbatim>\<open>ping()\<close> answers true or false or raises an error, \<^verbatim>\<open>reconnect()\<close>
  re-establishes the connection or raises an error.
\<close>

datatype ping_result = PingTrue | PingFalse | PingThrows exception

datatype reconnect_result = ReconnectDone | ReconnectThrows exception

text \<open>
  Where a call of \<^verbatim>\<open>getConnection\<close> stands: not yet made; blocked in \<^verbatim>\<open>cv_.wait\<close>; woken, about
  to take the mutex again and test the loop condition; past the locked section with a
  connection popped from the queue, checking it; returned with a lease on a connection; over,
  the lease destroyed; or left by an exception (\<open>Raised\<close>).
\<close>

datatype call_state =
    NotStarted
  | Waiting
  | Woken
  | Checking conn
  | Leased conn
  | Finished
  | Raised exception

record world =
  pool :: DbConnectionPool
  heap :: "DbConnection list"
  calls :: "call_id \<Rightarrow> call_state"

definition world_init :: world where
  "world_init =
     \<lparr>pool = \<lparr>host = [], user = [], password = [], database = [], connections = [],
              initialized = False, cv = []\<rparr>,
      heap = [],
      calls = (\<lambda>t. NotStarted)\<rparr>"

text \<open>
  \<^verbatim>\<open>DbConnectionPool::createConnection\<close>: a new object made from the stored configuration.
  The construction is taken to succeed; what happens when it fails during \<^verbatim>\<open>init\<close> is left
  open by the specification.
\<close>

definition createConnection :: "world \<Rightarrow> conn \<times> world" where
  "createConnection w =
     (length (heap w),
      w\<lparr>heap := heap w @ [(host (pool w), user (pool w), password (pool w), database (pool w))]\<rparr>)"

text \<open>The loop of \<^verbatim>\<open>init\<close> that pushes \<^verbatim>\<open>poolSize\<close> new connections.\<close>

fun createConnections :: "nat \<Rightarrow> world \<Rightarrow> world" where
  "createConnections 0 w = w"
| "createConnections (Suc n) w =
     (case createConnection w of
        (c, w') \<Rightarrow>
          createConnections n (w'\<lparr>pool := (pool w')\<lparr>connections := connections (pool w') @ [c]\<rparr>\<rparr>))"

text \<open>\<^verbatim>\<open>DbConnectionPool::init\<close>, one locked section.\<close>

definition init :: "string \<Rightarrow> string \<Rightarrow> string \<Rightarrow> string \<Rightarrow> nat \<Rightarrow> world \<Rightarrow> world" where
  "init h u p d poolSize w =
     (if initialized (pool w) then w
      else
        (let w1 = w\<lparr>pool := (pool w)\<lparr>host := h, user := u, password := p, database := d\<rparr>\<rparr>;
             w2 = createConnections poolSize w1
         in w2\<lparr>pool := (pool w2)\<lparr>initialized := True\<rparr>\<rparr>))"

text \<open>
  The first block of \<^verbatim>\<open>getConnection\<close> (the loop under the mutex), entered by a new call or by
  a woken one: with an empty queue the call throws if the pool is not initialized and
  otherwise waits, releasing the mutex; with a connection in the queue it takes the front
  one and leaves the block.
\<close>

definition lockedSection :: "call_id \<Rightarrow> world \<Rightarrow> world" where
  "lockedSection t w =
     (case connections (pool w) of
        [] \<Rightarrow>
          if \<not> initialized (pool w)
          then w\<lparr>calls := (calls w)(t := Raised (DbException ''Connection pool not initialized''))\<rparr>
          else w\<lparr>pool := (pool w)\<lparr>cv := cv (pool w) @ [t]\<rparr>, calls := (calls w)(t := Waiting)\<rparr>
      | c # cs \<Rightarrow>
          w\<lparr>pool := (pool w)\<lparr>connections := cs\<rparr>, calls := (calls w)(t := Checking c)\<rparr>)"

text \<open>
  \<^verbatim>\<open>cv_.notify_one()\<close>: with no waiter nothing happens; otherwise one waiter, chosen by the
  scheduler (the number \<open>k\<close> stands for its choice), is unblocked.
\<close>

definition notify_one :: "nat \<Rightarrow> world \<Rightarrow> world" where
  "notify_one k w =
     (if cv (pool w) = [] then w
      else
        (let t = cv (pool w) ! (k mod length (cv (pool w)))
         in w\<lparr>pool := (pool w)\<lparr>cv := remove1 t (cv (pool w))\<rparr>,
              calls := (calls w)(t := Woken)\<rparr>))"

text \<open>
  The locked section shared by the deleter of a lease and by the exception handler: push the
  connection to the back of the queue, then \<^verbatim>\<open>notify_one\<close>.
\<close>

definition giveBack :: "conn \<Rightarrow> nat \<Rightarrow> world \<Rightarrow> world" where
  "giveBack c k w =
     notify_one k (w\<lparr>pool := (pool w)\<lparr>connections := connections (pool w) @ [c]\<rparr>\<rparr>)"

text \<open>
  The \<^verbatim>\<open>try\<close> block of \<^verbatim>\<open>getConnection\<close> for a call that holds connection \<open>c\<close>, with the
  outcomes of \<^verbatim>\<open>ping\<close> and (if it is called) \<^verbatim>\<open>reconnect\<close>: a lease is returned, or the handler
  gives the connection back and throws the exception again.
\<close>

definition checkSection ::
  "call_id \<Rightarrow> ping_result \<Rightarrow> reconnect_result \<Rightarrow> nat \<Rightarrow> world \<Rightarrow> world" where
  "checkSection t pr rr k w =
     (case calls w t of
        Checking c \<Rightarrow>
          (case pr of
             PingTrue \<Rightarrow> w\<lparr>calls := (calls w)(t := Leased c)\<rparr>
           | PingFalse \<Rightarrow>
               (case rr of
                  ReconnectDone \<Rightarrow> w\<lparr>calls := (calls w)(t := Leased c)\<rparr>
                | ReconnectThrows e \<Rightarrow>
                    (let w' = giveBack c k w in w'\<lparr>calls := (calls w')(t := Raised e)\<rparr>))
           | PingThrows e \<Rightarrow>
               (let w' = giveBack c k w in w'\<lparr>calls := (calls w')(t := Raised e)\<rparr>))
      | _ \<Rightarrow> w)"

text \<open>The deleter of the lease, run when the lease is destroyed.\<close>

definition release :: "call_id \<Rightarrow> nat \<Rightarrow> world \<Rightarrow> world" where
  "release t k w =
     (case calls w t of
        Leased c \<Rightarrow> (let w' = giveBack c k w in w'\<lparr>calls := (calls w')(t := Finished)\<rparr>)
      | _ \<Rightarrow> w)"

text \<open>
  One cycle of \<^verbatim>\<open>checkConnections\<close>: the queue is copied under the mutex and each copied
  connection is pinged outside it; a failed \<^verbatim>\<open>reconnect\<close> is logged, an exception of \<^verbatim>\<open>ping\<close>
  ends the cycle in the outer handler. The result is the number of seconds the thread then
  sleeps; no member of the pool is written.
\<close>

fun checkEach ::
  "(conn \<Rightarrow> ping_result) \<Rightarrow> (conn \<Rightarrow> reconnect_result) \<Rightarrow> conn list \<Rightarrow> exception option" where
  "checkEach pings recs [] = None"
| "checkEach pings recs (c # cs) =
     (case pings c of
        PingTrue \<Rightarrow> checkEach pings recs cs
      | PingFalse \<Rightarrow>
          (case recs c of
             ReconnectDone \<Rightarrow> checkEach pings recs cs
           | ReconnectThrows e \<Rightarrow> checkEach pings recs cs)
      | PingThrows e \<Rightarrow> Some e)"

definition checkConnections ::
  "(conn \<Rightarrow> ping_result) \<Rightarrow> (conn \<Rightarrow> reconnect_result) \<Rightarrow> world \<Rightarrow> nat \<times> world" where
  "checkConnections pings recs w =
     (if connections (pool w) = [] then (1, w)
      else
        (case checkEach pings recs (connections (pool w)) of
           None \<Rightarrow> (60, w)
         | Some e \<Rightarrow> (5, w)))"

text \<open>
  The transitions of the system: what the callers, the scheduler and the health-check thread
  can do. A transition that is not possible in a state (a release without a lease, waking a
  call that does not wait) leaves the state as it is.
\<close>

datatype event =
    Init string string string string nat
  | Acquire call_id
  | Spurious call_id
  | Resume call_id
  | Check call_id ping_result reconnect_result nat
  | Release call_id nat
  | HealthCheck "conn \<Rightarrow> ping_result" "conn \<Rightarrow> reconnect_result"

fun step :: "world \<Rightarrow> event \<Rightarrow> world" where
  "step w (Init h u p d n) = init h u p d n w"
| "step w (Acquire t) = (if calls w t = NotStarted then lockedSection t w else w)"
| "step w (Spurious t) =
     (if calls w t = Waiting
      then w\<lparr>pool := (pool w)\<lparr>cv := remove1 t (cv (pool w))\<rparr>, calls := (calls w)(t := Woken)\<rparr>
      else w)"
| "step w (Resume t) = (if calls w t = Woken then lockedSection t w else w)"
| "step w (Check t pr rr k) = checkSection t pr rr k w"
| "step w (Release t k) = release t k w"
| "step w (HealthCheck pings recs) = snd (checkConnections pings recs w)"

definition run :: "world \<Rightarrow> event list \<Rightarrow> world" where
  "run w evs = foldl step w evs"

text \<open>A call holds a connection from the moment it pops it until it gives it back.\<close>

fun holds :: "call_state \<Rightarrow> conn \<Rightarrow> bool" where
  "holds (Checking c) c' = (c = c')"
| "holds (Leased c) c' = (c = c')"
| "holds s c' = False"

text \<open>
  The bookkeeping invariant of the pool, in two parts. For the connections: the queue holds
  no connection twice; the connections that exist are exactly those in the queue or held by
  a call; a held connection is not in the queue; no connection is held by two calls. For
  the condition variable: its wait list holds exactly the waiting calls, each once.
\<close>

definition connInv :: "world \<Rightarrow> bool" where
  "connInv w \<longleftrightarrow>
     distinct (connections (pool w))
     \<and> (\<forall>c. c < length (heap w) \<longleftrightarrow>
              c \<in> set (connections (pool w)) \<or> (\<exists>t. holds (calls w t) c))
     \<and> (\<forall>c t. holds (calls w t) c \<longrightarrow> c \<notin> set (connections (pool w)))
     \<and> (\<forall>c t t'. holds (calls w t) c \<and> holds (calls w t') c \<longrightarrow> t = t')"

definition cvInv :: "world \<Rightarrow> bool" where
  "cvInv w \<longleftrightarrow>
     distinct (cv (pool w)) \<and> (\<forall>t. t \<in> set (cv (pool w)) \<longleftrightarrow> calls w t = Waiting)"

definition poolInv :: "world \<Rightarrow> bool" where
  "poolInv w \<longleftrightarrow> connInv w \<and> cvInv w"

section \<open>Notions used to state the properties of the pool\<close>

text \<open>What only \<^verbatim>\<open>init\<close> writes: the configuration, the flag, and the connection objects.\<close>

definition fixedPart :: "world \<Rightarrow> string \<times> string \<times> string \<times> string \<times> bool \<times> DbConnection list" where
  "fixedPart w =
     (host (pool w), user (pool w), password (pool w), database (pool w), initialized (pool w), heap w)"

text \<open>
  While the pool is not initialized it has no connection and no waiting call: every call
  made so far was refused.
\<close>

definition uninitInv :: "world \<Rightarrow> bool" where
  "uninitInv w \<longleftrightarrow>
     (\<not> initialized (pool w) \<longrightarrow>
        connections (pool w) = [] \<and> heap w = [] \<and> cv (pool w) = [] \<and>
        (\<forall>t. calls w t = NotStarted \<or> (\<exists>e. calls w t = Raised e)))"

text \<open>
  An initialized pool without connections, seen from the state \<open>w1\<close> right after \<^verbatim>\<open>init\<close>:
  the queue is empty, no call holds a connection, and a call that was not yet made in
  \<open>w1\<close> is not made, waits, or was woken.
\<close>

definition emptyInv :: "world \<Rightarrow> world \<Rightarrow> bool" where
  "emptyInv w1 w \<longleftrightarrow>
     initialized (pool w) \<and> connections (pool w) = [] \<and>
     (\<forall>t c. \<not> holds (calls w t) c) \<and>
     (\<forall>t. calls w1 t = NotStarted \<longrightarrow>
          calls w t = NotStarted \<or> calls w t = Waiting \<or> calls w t = Woken)"

section \<open>The mutex of the pool and the check thread\<close>

text \<open>
  Every locked section starts by taking \<^verbatim>\<open>mutex_\<close>. The sections of the callers are short, but
  the check thread, which the constructor of the pool starts, keeps the mutex for a whole
  second: in \<^verbatim>\<open>checkConnections\<close> the \<^verbatim>\<open>sleep_for\<close> of one second for an empty queue stands
  inside the block of the \<^verbatim>\<open>unique_lock\<close>, so the lock is released only by the \<^verbatim>\<open>continue\<close>
  after the sleep (the sleeps of 60 and of 5 seconds stand after that block). The state of
  the pool is therefore extended by the fact that the check thread sleeps with the mutex, and
  by the calls of \<^verbatim>\<open>getConnection\<close> blocked in the constructor of their \<^verbatim>\<open>unique_lock\<close>.
\<close>

record locked_world =
  poolWorld :: world
  checkerHoldsMutex :: bool
  lockWaiters :: "call_id list"

text \<open>A pool right after its constructor: nothing initialized, the mutex free.\<close>

definition locked_world_init :: locked_world where
  "locked_world_init = \<lparr>poolWorld = world_init, checkerHoldsMutex = False, lockWaiters = []\<rparr>"

text \<open>
  The transitions that take \<^verbatim>\<open>mutex_\<close>: \<^verbatim>\<open>init\<close>, the first block of \<^verbatim>\<open>getConnection\<close> for a new
  call, the return of \<^verbatim>\<open>cv_.wait\<close> for a woken call, the exception handler of
  \<^verbatim>\<open>getConnection\<close>, the deleter of a lease, and the copy of the queue by the check thread.
  A spurious wake-up and the making of a lease after a good check take no lock.
\<close>

fun needsMutex :: "event \<Rightarrow> bool" where
  "needsMutex (Init h u p d n) = True"
| "needsMutex (Acquire t) = True"
| "needsMutex (Spurious t) = False"
| "needsMutex (Resume t) = True"
| "needsMutex (Check t pr rr k) =
     (case pr of
        PingTrue \<Rightarrow> False
      | PingFalse \<Rightarrow> (case rr of ReconnectDone \<Rightarrow> False | ReconnectThrows e \<Rightarrow> True)
      | PingThrows e \<Rightarrow> True)"
| "needsMutex (Release t k) = True"
| "needsMutex (HealthCheck pings recs) = True"

text \<open>
  The moves of the threads: a transition of the pool, or the end of the one-second sleep of
  the check thread. While the check thread sleeps with the mutex, a transition that needs the
  mutex does not happen; a new call of \<^verbatim>\<open>getConnection\<close> is then blocked at its lock. With the
  mutex free the transition happens as before, except that a pass of the check thread over an
  empty queue leaves the check thread asleep with the mutex.
\<close>

datatype thread_event = Move event | CheckerSleepOver

fun locked_step :: "locked_world \<Rightarrow> thread_event \<Rightarrow> locked_world" where
  "locked_step lw CheckerSleepOver = lw\<lparr>checkerHoldsMutex := False\<rparr>"
| "locked_step lw (Move e) =
     (if checkerHoldsMutex lw \<and> needsMutex e then
        (case e of
           Acquire t \<Rightarrow>
             if calls (poolWorld lw) t = NotStarted \<and> t \<notin> set (lockWaiters lw)
             then lw\<lparr>lockWaiters := lockWaiters lw @ [t]\<rparr>
             else lw
         | _ \<Rightarrow> lw)
      else
        (case e of
           HealthCheck pings recs \<Rightarrow>
             if connections (pool (poolWorld lw)) = []
             then lw\<lparr>checkerHoldsMutex := True\<rparr>
             else lw\<lparr>poolWorld := step (poolWorld lw) e\<rparr>
         | Acquire t \<Rightarrow>
             lw\<lparr>poolWorld := step (poolWorld lw) e, lockWaiters := removeAll t (lockWaiters lw)\<rparr>
         | _ \<Rightarrow> lw\<lparr>poolWorld := step (poolWorld lw) e\<rparr>))"

definition locked_run :: "locked_world \<Rightarrow> thread_event list \<Rightarrow> locked_world" where
  "locked_run lw evs = foldl locked_step lw evs"

section \<open>Wake-ups and idle connections\<close>

text \<open>
  While calls wait on the condition variable, there are at least as many woken calls on
  their way to the locked section as there are idle connections: a connection never lies
  idle beside calls that all sleep on.
\<close>

definition wakeInv :: "world \<Rightarrow> bool" where
  "wakeInv w \<longleftrightarrow>
     finite {t. calls w t = Woken} \<and>
     (cv (pool w) \<noteq> [] \<longrightarrow> length (connections (pool w)) \<le> card {t. calls w t = Woken})"

section \<open>The parser: divergence, lines and single steps\<close>

declare parseLoop.simps [code]

text \<open>The equations that evaluate the parser on a concrete input.\<close>

lemmas parser_eval =
  parseRequest_def parseStep_def processRequestLine_def find_char_def
  setMethod_def methodOfString_def setPath_def setQueryParameters_def storePair_def setVersion_def
  setReceiveTime_def addHeader_def getHeader_def setContentLength_def setBody_def
  stoi_def isspace_def isdigit_def digitsValue_def HttpContext_init_def HttpRequest_init_def

lemma gotAll_step: "state c = kGotAll \<Longrightarrow> parseStep rt c buf = Continue c buf"
  by (simp add: parseStep_def)

lemma parseLoop_Some_not_GotAll:
  assumes "parseLoop rt c buf = Some r"
  shows "state c \<noteq> kGotAll"
proof (rule parseLoop.raw_induct[where P = "\<lambda>rt c buf r. state c \<noteq> kGotAll", OF _ assms])
  fix loop rt c buf r
  assume ih: "\<And>rt c buf r. loop rt c buf = Some r \<Longrightarrow> state c \<noteq> kGotAll"
    and eq: "(case parseStep rt c buf of Continue c' buf' \<Rightarrow> loop rt c' buf'
      | Return ok c' buf' \<Rightarrow> Some (Returned ok, c', buf')
      | Throw e c' buf' \<Rightarrow> Some (Threw e, c', buf')) = Some r"
  show "state c \<noteq> kGotAll"
  proof
    assume g: "state c = kGotAll"
    then have "parseStep rt c buf = Continue c buf" by (rule gotAll_step)
    with eq have "loop rt c buf = Some r" by simp
    from ih[OF this] g show False by simp
  qed
qed

lemma parseLoop_GotAll: "state c = kGotAll \<Longrightarrow> parseLoop rt c buf = None"
proof (cases "parseLoop rt c buf")
  case None then show ?thesis .
next
  case (Some r)
  assume "state c = kGotAll"
  with parseLoop_Some_not_GotAll[OF Some] show ?thesis by simp
qed

text \<open>
  A call of \<^verbatim>\<open>parseRequest\<close> on a context that is already complete never returns: the loop
  has no branch for \<^verbatim>\<open>kGotAll\<close> and \<^verbatim>\<open>hasMore\<close> stays true. In every other state the call
  returns (lemma \<open>parseLoop_total\<close> below).
\<close>

lemma parseRequest_after_completion: "state c = kGotAll \<Longrightarrow> parseRequest c buf rt = None"
  by (simp add: parseRequest_def parseLoop_GotAll)

lemma find_char_append_hit: "c \<notin> set xs \<Longrightarrow> find_char c (xs @ c # ys) = length xs"
  by (induction xs) (auto simp: find_char_def)

lemma find_char_bound: "find_char c s \<le> length s"
  by (simp add: find_char_def length_takeWhile_le)

lemma find_char_miss: "c \<notin> set s \<Longrightarrow> find_char c s = length s"
  by (induction s) (auto simp: find_char_def)

lemma find_char_hit: "find_char c s \<noteq> length s \<longleftrightarrow> c \<in> set s"
  by (induction s) (auto simp: find_char_def)

lemma findCRLF_bound: "findCRLF b = Some i \<Longrightarrow> i + 2 \<le> length b"
  by (induction b arbitrary: i rule: findCRLF.induct) (auto split: if_splits)

lemma findCRLF_append: "findCRLF b1 = Some i \<Longrightarrow> findCRLF (b1 @ b2) = Some i"
  by (induction b1 arbitrary: i rule: findCRLF.induct) (auto split: if_splits)

lemma findCRLF_line: "findCRLF line = None \<Longrightarrow> findCRLF (line @ CR # LF # rest) = Some (length line)"
  by (induction line rule: findCRLF.induct) (auto split: if_splits)

lemma versionOk_cases:
  "versionOk ver \<longleftrightarrow> ver = ''HTTP/1.0'' \<or> ver = ''HTTP/1.1''"
proof
  assume v: "versionOk ver"
  then have "ver \<noteq> []" by (auto simp: versionOk_def)
  then have "ver = butlast ver @ [last ver]" by simp
  moreover from v have "butlast ver = ''HTTP/1.''"
    by (simp add: versionOk_def butlast_conv_take)
  ultimately have "ver = ''HTTP/1.'' @ [last ver]" by simp
  with v show "ver = ''HTTP/1.0'' \<or> ver = ''HTTP/1.1''"
    by (auto simp: versionOk_def)
next
  assume "ver = ''HTTP/1.0'' \<or> ver = ''HTTP/1.1''"
  then show "versionOk ver" by (auto simp: versionOk_def)
qed

lemma processRequestLine_shape:
  assumes "CHR '' '' \<notin> set m" "CHR '' '' \<notin> set target"
  shows "processRequestLine req (m @ CHR '' '' # target @ CHR '' '' # ver) =
    (if methodOfString m = kInvalid then (False, req\<lparr>method := kInvalid\<rparr>)
     else if versionOk ver
          then (True, setVersion (targetRequest (req\<lparr>method := methodOfString m\<rparr>) target) ver)
          else (False, targetRequest (req\<lparr>method := methodOfString m\<rparr>) target))"
proof -
  have sp1: "find_char (CHR '' '') (m @ CHR '' '' # target @ CHR '' '' # ver) = length m"
    using assms(1) by (rule find_char_append_hit)
  have sp2: "find_char (CHR '' '') (target @ CHR '' '' # ver) = length target"
    using assms(2) by (rule find_char_append_hit)
  show ?thesis
  proof (cases "versionOk ver")
    case True
    then have "ver = ''HTTP/1.0'' \<or> ver = ''HTTP/1.1''" by (simp add: versionOk_cases)
    then show ?thesis
      by (auto simp: processRequestLine_def sp1 sp2 setMethod_def targetRequest_def Let_def versionOk_def)
  next
    case False
    then show ?thesis
      by (auto simp: processRequestLine_def sp1 sp2 setMethod_def targetRequest_def Let_def versionOk_def)
  qed
qed

lemma needMore_step: "needMore c b \<Longrightarrow> parseStep rt c b = Return True c b"
  by (auto simp: needMore_def parseStep_def split: HttpRequestParseState.splits)

lemma step_Return_True:
  assumes "parseStep rt c b = Return True c' b'" "state c' \<noteq> kGotAll"
  shows "c' = c \<and> b' = b \<and> needMore c b"
  using assms
  by (auto simp: needMore_def parseStep_def Let_def
      split: HttpRequestParseState.splits option.splits prod.splits bool.splits if_splits sum.splits)

lemma step_Continue:
  assumes "parseStep rt c b = Continue c' b'" "state c \<noteq> kGotAll"
  shows "state c' \<noteq> kGotAll \<and> length b' < length b"
  using assms
  by (auto simp: parseStep_def Let_def dest!: findCRLF_bound
      split: HttpRequestParseState.splits option.splits prod.splits bool.splits if_splits sum.splits)

lemma step_append:
  assumes "\<not> needMore c b1" "state c \<noteq> kGotAll"
  shows "parseStep rt c (b1 @ b2) = appendBuf (parseStep rt c b1) b2"
proof (cases "state c")
  case kExpectRequestLine
  with assms obtain i where i: "findCRLF b1 = Some i" by (auto simp: needMore_def)
  from findCRLF_bound[OF i] findCRLF_append[OF i, of b2] i kExpectRequestLine show ?thesis
    by (auto simp: parseStep_def split: prod.splits bool.splits)
next
  case kExpectHeaders
  with assms obtain i where i: "findCRLF b1 = Some i" by (auto simp: needMore_def)
  from findCRLF_bound[OF i] findCRLF_append[OF i, of b2] i kExpectHeaders show ?thesis
    by (auto simp: parseStep_def Let_def split: sum.splits)
next
  case kExpectBody
  with assms show ?thesis by (auto simp: needMore_def parseStep_def)
next
  case kGotAll
  with assms show ?thesis by simp
qed

lemma parseLoop_total: "state c \<noteq> kGotAll \<Longrightarrow> \<exists>r. parseLoop rt c b = Some r"
proof (induction "length b" arbitrary: c b rule: less_induct)
  case less
  show ?case
  proof (cases "parseStep rt c b")
    case (Continue c' b')
    from step_Continue[OF Continue less.prems] less.hyps[of b' c'] Continue
    show ?thesis by (subst parseLoop.simps) simp
  next
    case (Return ok c' b')
    then show ?thesis by (subst parseLoop.simps) simp
  next
    case (Throw e c' b')
    then show ?thesis by (subst parseLoop.simps) simp
  qed
qed

lemma parseLoop_append:
  assumes "parseLoop rt c b1 = Some (out, c', b1')"
  shows "if out = Returned True \<and> state c' \<noteq> kGotAll
         then parseLoop rt c (b1 @ b2) = parseLoop rt c' (b1' @ b2) \<and> needMore c' b1'
         else parseLoop rt c (b1 @ b2) = Some (out, c', b1' @ b2)"
  using assms
proof (induction "length b1" arbitrary: c b1 rule: less_induct)
  case less
  have ng: "state c \<noteq> kGotAll" using less.prems by (rule parseLoop_Some_not_GotAll)
  show ?case
  proof (cases "needMore c b1")
    case True
    then have st: "parseStep rt c b1 = Return True c b1" by (rule needMore_step)
    with less.prems have "out = Returned True" "c' = c" "b1' = b1"
      by (simp_all add: parseLoop.simps[of rt c b1])
    with True ng show ?thesis by simp
  next
    case False
    note ap = step_append[OF False ng, of rt b2]
    show ?thesis
    proof (cases "parseStep rt c b1")
      case (Continue c1 b1c)
      from step_Continue[OF Continue ng] have lt: "length b1c < length b1" by simp
      from less.prems Continue have l1: "parseLoop rt c1 b1c = Some (out, c', b1')"
        by (simp add: parseLoop.simps[of rt c b1])
      from ap Continue have "parseLoop rt c (b1 @ b2) = parseLoop rt c1 (b1c @ b2)"
        by (simp add: parseLoop.simps[of rt c "b1 @ b2"])
      with less.hyps[OF lt l1] show ?thesis by simp
    next
      case (Return ok c1 b1c)
      from less.prems Return have eq: "out = Returned ok" "c' = c1" "b1' = b1c"
        by (simp_all add: parseLoop.simps[of rt c b1])
      have "\<not> (ok \<and> state c1 \<noteq> kGotAll)"
      proof
        assume "ok \<and> state c1 \<noteq> kGotAll"
        with Return step_Return_True[of rt c b1 c1 b1c] False show False by simp
      qed
      moreover from ap Return have "parseLoop rt c (b1 @ b2) = Some (Returned ok, c1, b1c @ b2)"
        by (simp add: parseLoop.simps[of rt c "b1 @ b2"])
      ultimately show ?thesis using eq by auto
    next
      case (Throw e c1 b1c)
      from less.prems Throw have eq: "out = Threw e" "c' = c1" "b1' = b1c"
        by (simp_all add: parseLoop.simps[of rt c b1])
      from ap Throw have "parseLoop rt c (b1 @ b2) = Some (Threw e, c1, b1c @ b2)"
        by (simp add: parseLoop.simps[of rt c "b1 @ b2"])
      with eq show ?thesis by simp
    qed
  qed
qed

section \<open>The parser: the receive time does not steer the parse\<close>

lemma processRequestLine_unfold:
  "processRequestLine q line =
     (let space = find_char (CHR '' '') line;
          start = drop (space + 1) line;
          space2 = find_char (CHR '' '') start;
          ver = drop (space2 + 1) start;
          q2 = targetRequest (q\<lparr>method := methodOfString (take space line)\<rparr>) (take space2 start)
      in if space \<noteq> length line then
           (if methodOfString (take space line) \<noteq> kInvalid then
              (if space2 \<noteq> length start then
                 (if length ver = 8 \<and> take 7 ver = ''HTTP/1.'' then
                    (if last ver = CHR ''1'' then (True, setVersion q2 ''HTTP/1.1'')
                     else if last ver = CHR ''0'' then (True, setVersion q2 ''HTTP/1.0'')
                     else (False, q2))
                  else (False, q2))
               else (False, q\<lparr>method := methodOfString (take space line)\<rparr>))
            else (False, q\<lparr>method := methodOfString (take space line)\<rparr>))
         else (False, q))"
  unfolding processRequestLine_def setMethod_def targetRequest_def Let_def
  by simp

lemma targetRequest_time:
  "targetRequest (q\<lparr>receiveTime := t, method := m\<rparr>) tg =
     (targetRequest (q\<lparr>method := m\<rparr>) tg)\<lparr>receiveTime := t\<rparr>"
  by (simp add: targetRequest_def setPath_def setQueryParameters_def)

lemma processRequestLine_time:
  "processRequestLine (r\<lparr>receiveTime := t\<rparr>) line =
     (fst (processRequestLine r line), (snd (processRequestLine r line))\<lparr>receiveTime := t\<rparr>)"
  by (simp add: processRequestLine_unfold Let_def targetRequest_time setVersion_def)

lemma withTime_simps [simp]:
  "state (withTime t c) = state c"
  "request (withTime t c) = (request c)\<lparr>receiveTime := t\<rparr>"
  "withTime t (withTime t' c) = withTime t c"
  "withTime t (c\<lparr>state := s\<rparr>) = (withTime t c)\<lparr>state := s\<rparr>"
  "withTime t (c\<lparr>request := r\<rparr>) = c\<lparr>request := r\<lparr>receiveTime := t\<rparr>\<rparr>"
  by (simp_all add: withTime_def)

lemma parseStep_time_RL:
  assumes "state c = kExpectRequestLine"
  shows "mapStep (withTime 0) (parseStep rt (withTime t c) b) = mapStep (withTime 0) (parseStep rt' c b)"
proof (cases "findCRLF b")
  case None
  with assms show ?thesis by (simp add: parseStep_def)
next
  case (Some i)
  with assms show ?thesis
    by (cases "processRequestLine (request c) (take i b)"; cases "fst (processRequestLine (request c) (take i b))")
       (simp_all add: parseStep_def processRequestLine_time setReceiveTime_def)
qed

lemma parseStep_time_H:
  assumes "state c = kExpectHeaders"
  shows "mapStep (withTime 0) (parseStep rt (withTime t c) b) = mapStep (withTime 0) (parseStep rt' c b)"
proof (cases "findCRLF b")
  case None
  with assms show ?thesis by (simp add: parseStep_def)
next
  case (Some i)
  with assms show ?thesis
    by (cases "stoi (getHeader (request c) ''Content-Length'')")
       (simp_all add: parseStep_def Let_def addHeader_def getHeader_def setContentLength_def)
qed

lemma parseStep_time:
  "mapStep (withTime 0) (parseStep rt (withTime t c) b) = mapStep (withTime 0) (parseStep rt' c b)"
proof (cases "state c")
  case kExpectRequestLine then show ?thesis by (rule parseStep_time_RL)
next
  case kExpectHeaders then show ?thesis by (rule parseStep_time_H)
next
  case kExpectBody then show ?thesis by (simp add: parseStep_def setBody_def)
next
  case kGotAll then show ?thesis by (simp add: parseStep_def)
qed

lemma sameButTime_withTime: "sameButTime c1 c2 \<Longrightarrow> c1 = withTime (receiveTime (request c1)) c2"
proof -
  assume "sameButTime c1 c2"
  then have "withTime 0 c1 = withTime 0 c2" by (simp add: sameButTime_def)
  then have "withTime (receiveTime (request c1)) (withTime 0 c1) = withTime (receiveTime (request c1)) (withTime 0 c2)"
    by simp
  then show ?thesis by (simp add: withTime_def)
qed

lemma parseStep_sameButTime:
  assumes "sameButTime c1 c2"
  shows "mapStep (withTime 0) (parseStep rt c1 b) = mapStep (withTime 0) (parseStep rt' c2 b)"
  using parseStep_time[of rt "receiveTime (request c1)" c2 b rt'] sameButTime_withTime[OF assms]
  by simp

lemma sameButTime_state: "sameButTime c1 c2 \<Longrightarrow> state c1 = state c2"
  by (metis sameButTime_def withTime_simps(1))

lemma parseLoop_sameButTime:
  assumes "sameButTime c1 c2"
  shows "forgetResult (parseLoop rt c1 b) = forgetResult (parseLoop rt' c2 b)"
  using assms
proof (induction "length b" arbitrary: c1 c2 b rule: less_induct)
  case less
  note st = sameButTime_state[OF less.prems]
  show ?case
  proof (cases "state c1 = kGotAll")
    case True
    with st show ?thesis by (simp add: parseLoop_GotAll)
  next
    case False
    note ms = parseStep_sameButTime[OF less.prems, of rt b rt']
    show ?thesis
    proof (cases "parseStep rt c1 b")
      case (Continue c1' b1)
      with ms obtain c2' where s2: "parseStep rt' c2 b = Continue c2' b1"
        and sb: "sameButTime c1' c2'"
        by (cases "parseStep rt' c2 b") (auto simp: sameButTime_def)
      from step_Continue[OF Continue False] have "length b1 < length b" by simp
      from less.hyps[OF this sb] Continue s2 show ?thesis
        by (simp add: parseLoop.simps[of rt c1 b] parseLoop.simps[of rt' c2 b])
    next
      case (Return ok c1' b1)
      with ms obtain c2' where s2: "parseStep rt' c2 b = Return ok c2' b1"
        and sb: "withTime 0 c1' = withTime 0 c2'"
        by (cases "parseStep rt' c2 b") auto
      with Return show ?thesis
        by (simp add: parseLoop.simps[of rt c1 b] parseLoop.simps[of rt' c2 b] forgetResult_def)
    next
      case (Throw e c1' b1)
      with ms obtain c2' where s2: "parseStep rt' c2 b = Throw e c2' b1"
        and sb: "withTime 0 c1' = withTime 0 c2'"
        by (cases "parseStep rt' c2 b") auto
      with Throw show ?thesis
        by (simp add: parseLoop.simps[of rt c1 b] parseLoop.simps[of rt' c2 b] forgetResult_def)
    qed
  qed
qed

lemma feedAll_single_shot:
  assumes "fs \<noteq> []" "sameButTime c1 c2"
    and "\<forall>k. 0 < k \<and> k < length fs \<longrightarrow> pending (parseLoop rt0 c2 (b @ concat (map snd (take k fs))))"
  shows "forgetResult (feedAll c1 b fs) = forgetResult (parseLoop rt0 c2 (b @ concat (map snd fs)))"
  using assms
proof (induction fs arbitrary: c1 c2 b)
  case Nil
  then show ?case by simp
next
  case (Cons f fs)
  obtain rt bytes where f: "f = (rt, bytes)" by (cases f)
  note same = parseLoop_sameButTime[OF Cons.prems(2), of rt "b @ bytes" rt0]
  show ?case
  proof (cases "fs = []")
    case True
    show ?thesis
    proof (cases "parseLoop rt c1 (b @ bytes)")
      case None
      with same True f show ?thesis by (simp add: parseRequest_def)
    next
      case (Some r)
      obtain out c' b' where r: "r = (out, c', b')" by (cases r)
      have "feedAll c1 b [(rt, bytes)] = Some (out, c', b')"
        using Some r by (cases out; cases "case out of Returned ok \<Rightarrow> ok | _ \<Rightarrow> False")
          (auto simp: parseRequest_def)
      with same True f Some r show ?thesis by simp
    qed
  next
    case False
    from Cons.prems(3)[rule_format, of 1] False f
    have "pending (parseLoop rt0 c2 (b @ bytes))" by (cases fs) auto
    then obtain c2' b' where p2: "parseLoop rt0 c2 (b @ bytes) = Some (Returned True, c2', b')"
      and ng: "state c2' \<noteq> kGotAll" by (auto simp: pending_def)
    with same obtain c1' where p1: "parseLoop rt c1 (b @ bytes) = Some (Returned True, c1', b')"
      and sb: "sameButTime c1' c2'"
      by (cases "parseLoop rt c1 (b @ bytes)") (auto simp: forgetResult_def sameButTime_def)
    have ext: "parseLoop rt0 c2 ((b @ bytes) @ more) = parseLoop rt0 c2' (b' @ more)" for more
      using parseLoop_append[OF p2, of more] ng by simp
    have hyp: "\<forall>k. 0 < k \<and> k < length fs \<longrightarrow> pending (parseLoop rt0 c2' (b' @ concat (map snd (take k fs))))"
    proof (intro allI impI)
      fix k assume k: "0 < k \<and> k < length fs"
      with Cons.prems(3)[rule_format, of "Suc k"] f
      have "pending (parseLoop rt0 c2 (b @ bytes @ concat (map snd (take k fs))))" by simp
      with ext[of "concat (map snd (take k fs))"] show "pending (parseLoop rt0 c2' (b' @ concat (map snd (take k fs))))"
        by simp
    qed
    from Cons.IH[OF False sb hyp] ext[of "concat (map snd fs)"] p1 f False show ?thesis
      by (simp add: parseRequest_def)
  qed
qed

section \<open>The parser: valid GET requests\<close>

lemma parseStep_RL_line:
  assumes "state c = kExpectRequestLine" "findCRLF line = None"
  shows "parseStep rt c (line @ CR # LF # rest) =
     (if fst (processRequestLine (request c) line)
      then Continue (c\<lparr>request := setReceiveTime (snd (processRequestLine (request c) line)) rt,
                      state := kExpectHeaders\<rparr>) rest
      else Return False (c\<lparr>request := snd (processRequestLine (request c) line)\<rparr>)
             (line @ CR # LF # rest))"
  using assms findCRLF_line[OF assms(2), of rest]
  by (simp add: parseStep_def split: prod.splits bool.splits)

lemma parseStep_header_line:
  assumes "state c = kExpectHeaders" "findCRLF l = None" "CHR '':'' \<in> set l"
  shows "parseStep rt c (l @ CR # LF # rest) = Continue (c\<lparr>request := addHeaderLine (request c) l\<rparr>) rest"
proof -
  from assms(3) have "find_char (CHR '':'') l < length l"
    using find_char_bound[of "CHR '':''" l] find_char_hit[of "CHR '':''" l] by simp
  with assms(1) findCRLF_line[OF assms(2), of rest] show ?thesis
    by (simp add: parseStep_def addHeaderLine_def)
qed

lemma parseStep_end_of_headers:
  assumes "state c = kExpectHeaders" "method (request c) \<noteq> kPost" "method (request c) \<noteq> kPut"
  shows "parseStep rt c (CR # LF # rest) = Return True (c\<lparr>state := kGotAll\<rparr>) rest"
  using assms by (simp add: parseStep_def find_char_def)

lemma parseLoop_headers:
  assumes "state c = kExpectHeaders" "method (request c) \<noteq> kPost" "method (request c) \<noteq> kPut"
    "\<forall>l \<in> set ls. CHR '':'' \<in> set l \<and> findCRLF l = None"
  shows "parseLoop rt c (headerBytes ls @ CR # LF # rest) =
     Some (Returned True, c\<lparr>request := foldl addHeaderLine (request c) ls, state := kGotAll\<rparr>, rest)"
  using assms
proof (induction ls arbitrary: c)
  case Nil
  then show ?case
    by (simp add: headerBytes_def parseLoop.simps[of rt c] parseStep_end_of_headers)
next
  case (Cons l ls)
  from Cons.prems have st: "parseStep rt c (l @ CR # LF # (headerBytes ls @ CR # LF # rest)) =
      Continue (c\<lparr>request := addHeaderLine (request c) l\<rparr>) (headerBytes ls @ CR # LF # rest)"
    by (intro parseStep_header_line) auto
  have m: "method (addHeaderLine (request c) l) = method (request c)"
    by (simp add: addHeaderLine_def addHeader_def)
  have "parseLoop rt c (headerBytes (l # ls) @ CR # LF # rest) =
        parseLoop rt (c\<lparr>request := addHeaderLine (request c) l\<rparr>) (headerBytes ls @ CR # LF # rest)"
    using st by (simp add: headerBytes_def parseLoop.simps[of rt c])
  also have "\<dots> = Some (Returned True,
      c\<lparr>request := addHeaderLine (request c) l\<rparr>
       \<lparr>request := foldl addHeaderLine (request (c\<lparr>request := addHeaderLine (request c) l\<rparr>)) ls,
        state := kGotAll\<rparr>, rest)"
    using Cons.prems m by (intro Cons.IH) auto
  finally show ?case by simp
qed

lemma validGet_parses:
  assumes "validGet target v ls"
  shows "parseLoop rt HttpContext_init (getRequestBytes target v ls) =
     Some (Returned True, \<lparr>state = kGotAll, request = parsedGet rt target v ls\<rparr>, [])"
proof -
  let ?line = "''GET'' @ CHR '' '' # target @ CHR '' '' # (''HTTP/1.'' @ [v])"
  from assms have nocr: "findCRLF ?line = None" by (simp add: validGet_def)
  from assms have vok: "versionOk (''HTTP/1.'' @ [v])" by (auto simp: validGet_def versionOk_def)
  from assms have "CHR '' '' \<notin> set target" by (simp add: validGet_def)
  then have prl: "processRequestLine HttpRequest_init ?line =
      (True, setVersion (targetRequest (HttpRequest_init\<lparr>method := kGet\<rparr>) target) (''HTTP/1.'' @ [v]))"
    using vok by (subst processRequestLine_shape) (simp_all add: methodOfString_def)
  let ?c1 = "HttpContext_init\<lparr>request := setReceiveTime
       (setVersion (targetRequest (HttpRequest_init\<lparr>method := kGet\<rparr>) target) (''HTTP/1.'' @ [v])) rt,
       state := kExpectHeaders\<rparr>"
  have st: "parseStep rt HttpContext_init (?line @ CR # LF # (headerBytes ls @ CR # LF # [])) =
      Continue ?c1 (headerBytes ls @ CR # LF # [])"
    using nocr prl by (subst parseStep_RL_line) (simp_all add: HttpContext_init_def)
  have bytes: "getRequestBytes target v ls = ?line @ CR # LF # (headerBytes ls @ CR # LF # [])"
    by (simp add: getRequestBytes_def)
  have m: "method (request ?c1) = kGet"
    by (simp add: setReceiveTime_def setVersion_def targetRequest_def setPath_def setQueryParameters_def)
  have "parseLoop rt HttpContext_init (getRequestBytes target v ls) =
        parseLoop rt ?c1 (headerBytes ls @ CR # LF # [])"
    unfolding bytes using st by (simp add: parseLoop.simps[of rt HttpContext_init])
  also have "\<dots> = Some (Returned True,
      ?c1\<lparr>request := foldl addHeaderLine (request ?c1) ls, state := kGotAll\<rparr>, [])"
    using assms m by (intro parseLoop_headers) (simp_all add: validGet_def)
  finally show ?thesis by (simp add: parsedGet_def HttpContext_init_def)
qed

section \<open>The parser: fragmentation\<close>

lemma sameButTime_sameParsed:
  assumes "sameButTime c1 c2"
  shows "sameParsed (request c1) (request c2)"
proof -
  from sameButTime_withTime[OF assms] have "request c1 = request (withTime (receiveTime (request c1)) c2)"
    by simp
  then have "request c1 = (request c2)\<lparr>receiveTime := receiveTime (request c1)\<rparr>" by simp
  then have "sameParsed (request c1) ((request c2)\<lparr>receiveTime := receiveTime (request c1)\<rparr>)"
    by (simp add: sameParsed_def)
  then show ?thesis by (simp add: sameParsed_def)
qed

lemma needMore_withTime: "needMore (withTime t c) b = needMore c b"
  by (cases "state c") (simp_all add: needMore_def)

lemma needMore_sameButTime:
  assumes "sameButTime c1 c2"
  shows "needMore c1 b = needMore c2 b"
  using sameButTime_withTime[OF assms] needMore_withTime[of "receiveTime (request c1)" c2 b]
  by simp

lemma prefix_pending:
  assumes "parseLoop rt c (p @ q) = Some (Returned True, cf, [])" "q \<noteq> []"
  shows "\<exists>c' b'. parseLoop rt c p = Some (Returned True, c', b') \<and> state c' \<noteq> kGotAll \<and> needMore c' b'"
proof -
  from assms(1) have "state c \<noteq> kGotAll" by (rule parseLoop_Some_not_GotAll)
  then obtain out c' b' where r: "parseLoop rt c p = Some (out, c', b')"
    using parseLoop_total[of c rt p] by auto
  show ?thesis
  proof (cases "out = Returned True \<and> state c' \<noteq> kGotAll")
    case True
    with parseLoop_append[OF r, of q] r show ?thesis by auto
  next
    case False
    with parseLoop_append[OF r, of q] have "parseLoop rt c (p @ q) = Some (out, c', b' @ q)" by simp
    with assms show ?thesis by simp
  qed
qed

lemma forgetResult_Some:
  assumes "forgetResult r1 = forgetResult r2" "r2 = Some (out, c2, b)"
  shows "\<exists>c1. r1 = Some (out, c1, b) \<and> sameButTime c1 c2"
  using assms by (cases r1) (auto simp: forgetResult_def sameButTime_def)

lemma feed_prefixes:
  assumes single: "parseLoop rt0 HttpContext_init (concat (map snd fs)) = Some (Returned True, c, [])"
    and last: "fs \<noteq> []" "snd (last fs) \<noteq> []"
    and k: "k \<le> length fs"
  shows "\<exists>c1 c2 b. feedAll HttpContext_init [] (take k fs) = Some (Returned True, c1, b) \<and>
           parseLoop rt0 HttpContext_init (concat (map snd (take k fs))) = Some (Returned True, c2, b) \<and>
           sameButTime c1 c2 \<and> (k < length fs \<longrightarrow> needMore c1 b)"
proof -
  have split: "concat (map snd fs) = concat (map snd (take j fs)) @ concat (map snd (drop j fs))" for j
    by (metis append_take_drop_id concat_append map_append)
  have rest: "concat (map snd (drop j fs)) \<noteq> []" if "j < length fs" for j
  proof -
    from that have "drop j fs \<noteq> []" by simp
    then have "last (drop j fs) \<in> set (drop j fs)" by (rule last_in_set)
    moreover have "last (drop j fs) = last fs" using that by simp
    ultimately have "last fs \<in> set (drop j fs)" by simp
    with last(2) show ?thesis by (auto intro!: bexI[of _ "last fs"])
  qed
  have pend: "\<exists>c' b'. parseLoop rt0 HttpContext_init (concat (map snd (take j fs))) = Some (Returned True, c', b')
        \<and> state c' \<noteq> kGotAll \<and> needMore c' b'" if "j < length fs" for j
    using prefix_pending[OF single[unfolded split[of j]] rest[OF that]] .
  show ?thesis
  proof (cases "k = 0")
    case True
    have "needMore HttpContext_init []" by (simp add: needMore_def HttpContext_init_def)
    then have "parseLoop rt0 HttpContext_init [] = Some (Returned True, HttpContext_init, [])"
      by (simp add: parseLoop.simps[of rt0 HttpContext_init "[]"] needMore_step)
    with True \<open>needMore HttpContext_init []\<close> show ?thesis by (simp add: sameButTime_def)
  next
    case False
    with k have ne: "take k fs \<noteq> []" using last(1) by auto
    have hyp: "\<forall>j. 0 < j \<and> j < length (take k fs) \<longrightarrow>
        pending (parseLoop rt0 HttpContext_init ([] @ concat (map snd (take j (take k fs)))))"
    proof (intro allI impI)
      fix j assume j: "0 < j \<and> j < length (take k fs)"
      then have "j < length fs" "min j k = j" using k by auto
      with pend[of j] show "pending (parseLoop rt0 HttpContext_init ([] @ concat (map snd (take j (take k fs)))))"
        by (auto simp: pending_def)
    qed
    have sb0: "sameButTime HttpContext_init HttpContext_init" by (simp add: sameButTime_def)
    from feedAll_single_shot[OF ne sb0 hyp]
    have eq: "forgetResult (feedAll HttpContext_init [] (take k fs)) =
              forgetResult (parseLoop rt0 HttpContext_init (concat (map snd (take k fs))))" by simp
    show ?thesis
    proof (cases "k < length fs")
      case True
      from pend[OF True] obtain c2 b where p: "parseLoop rt0 HttpContext_init (concat (map snd (take k fs))) = Some (Returned True, c2, b)"
        and nm: "needMore c2 b" by auto
      from forgetResult_Some[OF eq p] obtain c1 where
        "feedAll HttpContext_init [] (take k fs) = Some (Returned True, c1, b)" "sameButTime c1 c2" by auto
      with p nm needMore_sameButTime[of c1 c2 b] show ?thesis by auto
    next
      case False
      with k have kk: "k = length fs" by simp
      from forgetResult_Some[OF eq] single kk obtain c1 where
        "feedAll HttpContext_init [] (take k fs) = Some (Returned True, c1, [])" "sameButTime c1 c" by auto
      with single kk show ?thesis by auto
    qed
  qed
qed

text \<open>
  Claim C1. A valid GET request is a request line \<^verbatim>\<open>GET target HTTP/1.v\<close>, header lines that
  each contain a colon, and the empty line; no body. However its bytes are cut into
  fragments, fed one after the other (each with its own receive time), the last call returns
  true in state \<^verbatim>\<open>kGotAll\<close> with an empty buffer, and the method, path, query parameters,
  version and headers of the request are those a single call on the whole message produces.
  Every call makes maximal progress: after the first \<open>k\<close> fragments the context and the
  unconsumed bytes are those of one call on all the bytes delivered so far, and until the
  message is complete the unconsumed bytes hold no complete line. The last fragment carries
  at least one byte, so that no call is made on a context that is already in \<^verbatim>\<open>kGotAll\<close>,
  where the loop of \<^verbatim>\<open>parseRequest\<close> has no branch to take.
\<close>

theorem fragmentation_independent:
  assumes "validGet target v ls"
    and "concat (map snd fs) = getRequestBytes target v ls"
    and "fs \<noteq> []" and "snd (last fs) \<noteq> []"
  shows "(\<exists>c cf. parseRequest HttpContext_init (getRequestBytes target v ls) rt0 = Some (Returned True, c, [])
            \<and> feedAll HttpContext_init [] fs = Some (Returned True, cf, [])
            \<and> state c = kGotAll \<and> state cf = kGotAll \<and> method (request c) = kGet
            \<and> sameParsed (request cf) (request c))
       \<and> (\<forall>k \<le> length fs. \<exists>c1 c2 b.
              feedAll HttpContext_init [] (take k fs) = Some (Returned True, c1, b)
            \<and> parseRequest HttpContext_init (concat (map snd (take k fs))) rt0 = Some (Returned True, c2, b)
            \<and> state c1 = state c2 \<and> sameParsed (request c1) (request c2)
            \<and> (k < length fs \<longrightarrow> needMore c1 b))"
proof -
  let ?c = "\<lparr>state = kGotAll, request = parsedGet rt0 target v ls\<rparr>"
  have single: "parseLoop rt0 HttpContext_init (concat (map snd fs)) = Some (Returned True, ?c, [])"
    using validGet_parses[OF assms(1), of rt0] assms(2) by simp
  have m: "method (parsedGet rt0 target v ls) = kGet"
  proof -
    have "method (foldl addHeaderLine r ls) = method r" for r
      by (induction ls arbitrary: r) (simp_all add: addHeaderLine_def addHeader_def)
    then show ?thesis
      by (simp add: parsedGet_def setReceiveTime_def setVersion_def targetRequest_def setPath_def
          setQueryParameters_def)
  qed
  have part2: "\<exists>c1 c2 b.
              feedAll HttpContext_init [] (take k fs) = Some (Returned True, c1, b)
            \<and> parseRequest HttpContext_init (concat (map snd (take k fs))) rt0 = Some (Returned True, c2, b)
            \<and> state c1 = state c2 \<and> sameParsed (request c1) (request c2)
            \<and> (k < length fs \<longrightarrow> needMore c1 b)" if "k \<le> length fs" for k
    using feed_prefixes[OF single assms(3,4) that]
    by (auto simp: parseRequest_def dest: sameButTime_state sameButTime_sameParsed)
  from feed_prefixes[OF single assms(3,4), of "length fs"] single
  obtain cf where "feedAll HttpContext_init [] fs = Some (Returned True, cf, [])" "sameButTime cf ?c"
    by auto
  with single m assms(2) have part1: "\<exists>c cf. parseRequest HttpContext_init (getRequestBytes target v ls) rt0 = Some (Returned True, c, [])
            \<and> feedAll HttpContext_init [] fs = Some (Returned True, cf, [])
            \<and> state c = kGotAll \<and> state cf = kGotAll \<and> method (request c) = kGet
            \<and> sameParsed (request cf) (request c)"
    by (auto simp: parseRequest_def dest: sameButTime_state sameButTime_sameParsed)
  from part1 part2 show ?thesis by blast
qed

theorem fragmentation_independent_witness:
  "validGet ''/a?x=1'' (CHR ''1'') [''Host: h'']
   \<and> concat (map snd [(1::Timestamp, ''GET /a?x''), (2, ''=1 HTTP/1.1'' @ [CR]), (3, [LF] @ ''Host: h'' @ [CR, LF, CR]), (4, [LF])])
       = getRequestBytes ''/a?x=1'' (CHR ''1'') [''Host: h'']
   \<and> (\<exists>cf. feedAll HttpContext_init []
              [(1, ''GET /a?x''), (2, ''=1 HTTP/1.1'' @ [CR]), (3, [LF] @ ''Host: h'' @ [CR, LF, CR]), (4, [LF])]
              = Some (Returned True, cf, [])
         \<and> state cf = kGotAll
         \<and> method (request cf) = kGet \<and> path (request cf) = ''/a''
         \<and> queryParameters (request cf) = [''x'' \<mapsto> ''1'']
         \<and> version (request cf) = ''HTTP/1.1''
         \<and> headers (request cf) = [''Host'' \<mapsto> '' h''])"
proof -
  let ?fs = "[(1::int, ''GET /a?x''), (2, ''=1 HTTP/1.1'' @ [CR]), (3, [LF] @ ''Host: h'' @ [CR, LF, CR]), (4, [LF])]"
  have v: "validGet ''/a?x=1'' (CHR ''1'') [''Host: h'']" by (simp add: validGet_def)
  have b: "concat (map snd ?fs) = getRequestBytes ''/a?x=1'' (CHR ''1'') [''Host: h'']"
    by (simp add: getRequestBytes_def headerBytes_def)
  have ne: "?fs \<noteq> []" "snd (last ?fs) \<noteq> []" by simp_all
  from fragmentation_independent[OF v b ne, of 0]
  obtain c cf where single: "parseRequest HttpContext_init (getRequestBytes ''/a?x=1'' (CHR ''1'') [''Host: h'']) 0
        = Some (Returned True, c, [])"
    and fed: "feedAll HttpContext_init [] ?fs = Some (Returned True, cf, [])"
    and st: "state cf = kGotAll" and same: "sameParsed (request cf) (request c)" by blast
  from single have "method (request c) = kGet \<and> path (request c) = ''/a''
         \<and> queryParameters (request c) = [''x'' \<mapsto> ''1'']
         \<and> version (request c) = ''HTTP/1.1''
         \<and> headers (request c) = [''Host'' \<mapsto> '' h'']"
    by (auto simp add: getRequestBytes_def headerBytes_def parseLoop.simps parser_eval)
  with same have "method (request cf) = kGet \<and> path (request cf) = ''/a''
         \<and> queryParameters (request cf) = [''x'' \<mapsto> ''1'']
         \<and> version (request cf) = ''HTTP/1.1''
         \<and> headers (request cf) = [''Host'' \<mapsto> '' h'']"
    by (simp add: sameParsed_def)
  with v b fed st show ?thesis by blast
qed

section \<open>The parser: the version of the request line\<close>

text \<open>
  Claim C4. In a request line \<^verbatim>\<open>m target ver\<close> (no space in \<open>m\<close> or \<open>target\<close>, so \<open>ver\<close> is
  what follows the second space) with a recognised method, the line is accepted exactly when
  \<open>ver\<close> has 8 characters, starts with \<^verbatim>\<open>HTTP/1.\<close> and ends in \<^verbatim>\<open>0\<close> or \<^verbatim>\<open>1\<close>; the stored
  version is then \<^verbatim>\<open>HTTP/1.0\<close> or \<^verbatim>\<open>HTTP/1.1\<close> respectively. With any other version
  substring \<^verbatim>\<open>parseRequest\<close> returns false, whatever the method, and consumes nothing.
\<close>

theorem version_acceptance:
  assumes "CHR '' '' \<notin> set m" and "CHR '' '' \<notin> set target"
  shows "(methodOfString m \<noteq> kInvalid \<longrightarrow>
            fst (processRequestLine req (m @ CHR '' '' # target @ CHR '' '' # ver)) = versionOk ver)
       \<and> (fst (processRequestLine req (m @ CHR '' '' # target @ CHR '' '' # ver)) \<longrightarrow>
            version (snd (processRequestLine req (m @ CHR '' '' # target @ CHR '' '' # ver))) = ver
            \<and> (last ver = CHR ''0'' \<longrightarrow> ver = ''HTTP/1.0'')
            \<and> (last ver = CHR ''1'' \<longrightarrow> ver = ''HTTP/1.1''))
       \<and> (\<not> versionOk ver \<and> state c = kExpectRequestLine
            \<and> findCRLF (m @ CHR '' '' # target @ CHR '' '' # ver) = None \<longrightarrow>
            (\<exists>c'. parseRequest c ((m @ CHR '' '' # target @ CHR '' '' # ver) @ CR # LF # rest) rt
                    = Some (Returned False, c', (m @ CHR '' '' # target @ CHR '' '' # ver) @ CR # LF # rest)))"
proof -
  note shape = processRequestLine_shape[OF assms, of _ ver]
  have p1: "methodOfString m \<noteq> kInvalid \<longrightarrow>
            fst (processRequestLine req (m @ CHR '' '' # target @ CHR '' '' # ver)) = versionOk ver"
    by (simp add: shape)
  have p2: "fst (processRequestLine req (m @ CHR '' '' # target @ CHR '' '' # ver)) \<longrightarrow>
            version (snd (processRequestLine req (m @ CHR '' '' # target @ CHR '' '' # ver))) = ver
            \<and> (last ver = CHR ''0'' \<longrightarrow> ver = ''HTTP/1.0'')
            \<and> (last ver = CHR ''1'' \<longrightarrow> ver = ''HTTP/1.1'')"
    by (auto simp: shape setVersion_def versionOk_cases split: if_splits)
  have p3: "\<not> versionOk ver \<and> state c = kExpectRequestLine
            \<and> findCRLF (m @ CHR '' '' # target @ CHR '' '' # ver) = None \<longrightarrow>
            (\<exists>c'. parseRequest c ((m @ CHR '' '' # target @ CHR '' '' # ver) @ CR # LF # rest) rt
                    = Some (Returned False, c', (m @ CHR '' '' # target @ CHR '' '' # ver) @ CR # LF # rest))"
  proof
    assume a: "\<not> versionOk ver \<and> state c = kExpectRequestLine
            \<and> findCRLF (m @ CHR '' '' # target @ CHR '' '' # ver) = None"
    then have "\<not> fst (processRequestLine (request c) (m @ CHR '' '' # target @ CHR '' '' # ver))"
      by (simp add: shape)
    with a parseStep_RL_line[of c "m @ CHR '' '' # target @ CHR '' '' # ver" rt rest]
    show "\<exists>c'. parseRequest c ((m @ CHR '' '' # target @ CHR '' '' # ver) @ CR # LF # rest) rt
                    = Some (Returned False, c', (m @ CHR '' '' # target @ CHR '' '' # ver) @ CR # LF # rest)"
      by (simp add: parseRequest_def parseLoop.simps[of rt c])
  qed
  from p1 p2 p3 show ?thesis by blast
qed

theorem version_acceptance_witness:
  "fst (processRequestLine HttpRequest_init ''GET /a?x=1 HTTP/1.1'')
   \<and> version (snd (processRequestLine HttpRequest_init ''GET /a?x=1 HTTP/1.1'')) = ''HTTP/1.1''
   \<and> \<not> fst (processRequestLine HttpRequest_init ''GET /a?x=1 HTTP/1.2'')
   \<and> (\<exists>c'. parseRequest HttpContext_init (''GET /a?x=1 HTTP/1.2'' @ CR # LF # ''Host: h'') 0
             = Some (Returned False, c', ''GET /a?x=1 HTTP/1.2'' @ CR # LF # ''Host: h''))"
proof -
  have ok: "versionOk ''HTTP/1.1''" and bad: "\<not> versionOk ''HTTP/1.2''"
    by (simp_all add: versionOk_def)
  have m: "methodOfString ''GET'' \<noteq> kInvalid" by (simp add: methodOfString_def)
  have st: "state HttpContext_init = kExpectRequestLine" by (simp add: HttpContext_init_def)
  from version_acceptance[of "''GET''" "''/a?x=1''" HttpRequest_init "''HTTP/1.1''" HttpContext_init "[]" 0]
       version_acceptance[of "''GET''" "''/a?x=1''" HttpRequest_init "''HTTP/1.2''" HttpContext_init "''Host: h''" 0]
       ok bad m st
  show ?thesis by simp
qed

section \<open>The parser: content length and body\<close>

lemma targetRequest_keeps:
  "body (targetRequest q tg) = body q" "contentLength (targetRequest q tg) = contentLength q"
  by (simp_all add: targetRequest_def setPath_def setQueryParameters_def)

lemma processRequestLine_keeps:
  "body (snd (processRequestLine r line)) = body r"
  "contentLength (snd (processRequestLine r line)) = contentLength r"
  by (simp_all add: processRequestLine_unfold Let_def targetRequest_keeps setVersion_def)

lemma parserInv_init: "parserInv HttpContext_init"
  by (simp add: parserInv_def HttpContext_init_def HttpRequest_init_def)

lemma parseStep_inv_RL:
  assumes "state c = kExpectRequestLine" "parserInv c"
  shows "parserInv (contextOf (parseStep rt c b)) \<and>
         (\<exists>hd. b = hd @ body (request (contextOf (parseStep rt c b))) @ bufferOf (parseStep rt c b))"
proof (cases "findCRLF b")
  case None
  with assms show ?thesis by (simp add: parseStep_def parserInv_def)
next
  case (Some i)
  have "b = take (i + 2) b @ drop (i + 2) b" by simp
  then have ex: "\<exists>hd. b = hd @ drop (i + 2) b" by blast
  from assms Some ex show ?thesis
    by (cases "processRequestLine (request c) (take i b)"; cases "fst (processRequestLine (request c) (take i b))")
       (use processRequestLine_keeps[of "request c" "take i b"] in
         \<open>simp_all add: parseStep_def parserInv_def setReceiveTime_def\<close>)
qed

lemma parseStep_inv_H:
  assumes "state c = kExpectHeaders" "parserInv c"
  shows "parserInv (contextOf (parseStep rt c b)) \<and>
         (\<exists>hd. b = hd @ body (request (contextOf (parseStep rt c b))) @ bufferOf (parseStep rt c b))"
proof (cases "findCRLF b")
  case None
  with assms show ?thesis by (simp add: parseStep_def parserInv_def)
next
  case (Some i)
  have "b = take (i + 2) b @ drop (i + 2) b" by simp
  then have ex: "\<exists>hd. b = hd @ drop (i + 2) b" by blast
  from assms Some ex show ?thesis
    by (cases "stoi (getHeader (request c) ''Content-Length'')")
       (auto simp add: parseStep_def parserInv_def Let_def addHeader_def setContentLength_def
          word_greater_zero_iff)
qed

lemma parseStep_inv_B:
  assumes "state c = kExpectBody" "parserInv c"
  shows "parserInv (contextOf (parseStep rt c b)) \<and>
         (\<exists>hd. b = hd @ body (request (contextOf (parseStep rt c b))) @ bufferOf (parseStep rt c b))"
proof (cases "length b < unat (contentLength (request c))")
  case True
  with assms show ?thesis by (simp add: parseStep_def parserInv_def)
next
  case False
  have "b = [] @ take (unat (contentLength (request c))) b @ drop (unat (contentLength (request c))) b"
    by simp
  with False assms show ?thesis
    by (simp add: parseStep_def parserInv_def setBody_def)
qed

lemma parseStep_inv:
  assumes "parserInv c" "state c \<noteq> kGotAll"
  shows "parserInv (contextOf (parseStep rt c b)) \<and>
         (\<exists>hd. b = hd @ body (request (contextOf (parseStep rt c b))) @ bufferOf (parseStep rt c b))"
  using assms parseStep_inv_RL[of c rt b] parseStep_inv_H[of c rt b] parseStep_inv_B[of c rt b]
  by (cases "state c") simp_all

lemma step_GotAll_ok:
  assumes "state c \<noteq> kGotAll" "state (contextOf (parseStep rt c b)) = kGotAll"
  shows "\<exists>c' b'. parseStep rt c b = Return True c' b'"
  using assms
  by (auto simp: parseStep_def Let_def
      split: HttpRequestParseState.splits option.splits prod.splits bool.splits if_splits sum.splits)

lemma parseLoop_GotAll_ok:
  assumes "parseLoop rt c b = Some (out, c', b')" "state c' = kGotAll"
  shows "out = Returned True"
  using assms
proof (induction "length b" arbitrary: c b rule: less_induct)
  case less
  have ng: "state c \<noteq> kGotAll" using less.prems(1) by (rule parseLoop_Some_not_GotAll)
  show ?case
  proof (cases "parseStep rt c b")
    case (Continue c1 b1)
    from step_Continue[OF Continue ng] have lt: "length b1 < length b" by simp
    from less.prems(1) Continue have "parseLoop rt c1 b1 = Some (out, c', b')"
      by (simp add: parseLoop.simps[of rt c b])
    from less.hyps[OF lt this less.prems(2)] show ?thesis .
  next
    case (Return ok c1 b1)
    with less.prems have "out = Returned ok" "state (contextOf (parseStep rt c b)) = kGotAll"
      by (simp_all add: parseLoop.simps[of rt c b])
    with step_GotAll_ok[OF ng, of rt b] Return show ?thesis by simp
  next
    case (Throw e c1 b1)
    with less.prems have "state (contextOf (parseStep rt c b)) = kGotAll"
      by (simp_all add: parseLoop.simps[of rt c b])
    with step_GotAll_ok[OF ng, of rt b] Throw show ?thesis by simp
  qed
qed

lemma parseLoop_inv:
  assumes "parseLoop rt c b = Some (out, c', b')" "parserInv c"
  shows "parserInv c' \<and> (\<exists>hd. b = hd @ body (request c') @ b')"
  using assms
proof (induction "length b" arbitrary: c b rule: less_induct)
  case less
  have ng: "state c \<noteq> kGotAll" using less.prems(1) by (rule parseLoop_Some_not_GotAll)
  note inv = parseStep_inv[OF less.prems(2) ng, of rt b]
  show ?case
  proof (cases "parseStep rt c b")
    case (Continue c1 b1)
    from step_Continue[OF Continue ng] have lt: "length b1 < length b" and ng1: "state c1 \<noteq> kGotAll"
      by simp_all
    from less.prems(1) Continue have l1: "parseLoop rt c1 b1 = Some (out, c', b')"
      by (simp add: parseLoop.simps[of rt c b])
    from inv Continue have i1: "parserInv c1" and "\<exists>hd. b = hd @ body (request c1) @ b1" by simp_all
    moreover from i1 ng1 have "body (request c1) = []"
      by (cases "state c1") (simp_all add: parserInv_def)
    ultimately obtain hd where hd: "b = hd @ b1" by auto
    from less.hyps[OF lt l1 i1] obtain hd' where "parserInv c'" "b1 = hd' @ body (request c') @ b'"
      by auto
    with hd have "b = (hd @ hd') @ body (request c') @ b'" by simp
    with \<open>parserInv c'\<close> show ?thesis by blast
  next
    case (Return ok c1 b1)
    with less.prems(1) have "c' = c1" "b' = b1" by (simp_all add: parseLoop.simps[of rt c b])
    with inv Return show ?thesis by simp
  next
    case (Throw e c1 b1)
    with less.prems(1) have "c' = c1" "b' = b1" by (simp_all add: parseLoop.simps[of rt c b])
    with inv Throw show ?thesis by simp
  qed
qed

lemma feedAll_inv:
  assumes "feedAll c b fs = Some (out, c', b')" "parserInv c" "body (request c) = []"
  shows "parserInv c' \<and>
         (state c' = kGotAll \<longrightarrow> (\<exists>hd. b @ concat (map snd fs) = hd @ body (request c') @ b'))"
  using assms
proof (induction fs arbitrary: c b)
  case Nil
  then show ?case by simp
next
  case (Cons f fs)
  obtain rt bytes where f: "f = (rt, bytes)" by (cases f)
  from Cons.prems(1) f obtain o1 c1 b1 where p: "parseLoop rt c (b @ bytes) = Some (o1, c1, b1)"
    by (cases "parseLoop rt c (b @ bytes)") (auto simp: parseRequest_def)
  from parseLoop_inv[OF p Cons.prems(2)] obtain hd where i1: "parserInv c1"
    and hd: "b @ bytes = hd @ body (request c1) @ b1" by auto
  show ?case
  proof (cases "o1 = Returned True \<and> fs \<noteq> []")
    case True
    with Cons.prems(1) f p have fa: "feedAll c1 b1 fs = Some (out, c', b')"
      by (simp add: parseRequest_def)
    from True obtain g gs where fs: "fs = g # gs" by (cases fs) auto
    obtain rt' bytes' where g: "g = (rt', bytes')" by (cases g)
    from fa fs g have "parseLoop rt' c1 (b1 @ bytes') \<noteq> None"
      by (auto simp: parseRequest_def split: option.splits)
    then have ng1: "state c1 \<noteq> kGotAll" using parseLoop_GotAll[of c1 rt' "b1 @ bytes'"] by auto
    with i1 have b0: "body (request c1) = []" by (cases "state c1") (simp_all add: parserInv_def)
    from Cons.IH[OF fa i1 b0] have inv': "parserInv c'"
      and st: "state c' = kGotAll \<longrightarrow> (\<exists>hd'. b1 @ concat (map snd fs) = hd' @ body (request c') @ b')"
      by auto
    have "\<exists>hd''. b @ concat (map snd (f # fs)) = hd'' @ body (request c') @ b'" if "state c' = kGotAll"
    proof -
      from st that obtain hd' where "b1 @ concat (map snd fs) = hd' @ body (request c') @ b'" by auto
      with hd b0 f have "b @ concat (map snd (f # fs)) = (hd @ hd') @ body (request c') @ b'"
        by (metis append.assoc append_Nil concat.simps(2) list.simps(9) snd_conv)
      then show ?thesis by blast
    qed
    with inv' show ?thesis by blast
  next
    case False
    with Cons.prems(1) f p have "c' = c1 \<and> b' = b1 \<and> (fs = [] \<or> o1 \<noteq> Returned True)"
      by (cases o1; cases "case o1 of Returned ok \<Rightarrow> ok | _ \<Rightarrow> False")
         (auto simp: parseRequest_def)
    then have eq: "c' = c1" "b' = b1" and alt: "fs = [] \<or> o1 \<noteq> Returned True" by simp_all
    have "\<exists>hd''. b @ concat (map snd (f # fs)) = hd'' @ body (request c') @ b'" if "state c' = kGotAll"
    proof -
      from parseLoop_GotAll_ok[OF p] that eq have "o1 = Returned True" by simp
      with alt have "fs = []" by simp
      with hd f eq show ?thesis by auto
    qed
    with i1 eq show ?thesis by blast
  qed
qed

text \<open>
  Claim C5. Feed any fragments to a fresh parser. If the parse ends in \<^verbatim>\<open>kGotAll\<close>, the
  content length of the request equals the length of the stored body, and the bytes fed are
  the consumed head (request line and header lines), then exactly the body, then the bytes
  still in the buffer: the content length is the number of body bytes taken from the stream.
\<close>

theorem content_length_is_body_length:
  assumes "feedAll HttpContext_init [] fs = Some (out, c, buf)" and "state c = kGotAll"
  shows "unat (contentLength (request c)) = length (body (request c))
       \<and> (\<exists>hd. concat (map snd fs) = hd @ body (request c) @ buf)"
proof -
  have b0: "body (request HttpContext_init) = []"
    by (simp add: HttpContext_init_def HttpRequest_init_def)
  from feedAll_inv[OF assms(1) parserInv_init b0] assms(2) show ?thesis
    by (simp add: parserInv_def)
qed

theorem content_length_is_body_length_witness:
  "\<exists>c. feedAll HttpContext_init []
          [(1, ''POST /p HTTP/1.1'' @ [CR, LF] @ ''Content-Length: 5'' @ [CR, LF, CR, LF] @ ''hel''),
           (2, ''lo'')] = Some (Returned True, c, [])
       \<and> state c = kGotAll \<and> body (request c) = ''hello''
       \<and> unat (contentLength (request c)) = length (body (request c))"
proof -
  have "\<exists>c. feedAll HttpContext_init []
          [(1, ''POST /p HTTP/1.1'' @ [CR, LF] @ ''Content-Length: 5'' @ [CR, LF, CR, LF] @ ''hel''),
           (2, ''lo'')] = Some (Returned True, c, [])
       \<and> state c = kGotAll \<and> body (request c) = ''hello''"
    by (simp add: parseLoop.simps parser_eval)
  then obtain c where ev: "feedAll HttpContext_init []
          [(1, ''POST /p HTTP/1.1'' @ [CR, LF] @ ''Content-Length: 5'' @ [CR, LF, CR, LF] @ ''hel''),
           (2, ''lo'')] = Some (Returned True, c, [])"
    and st: "state c = kGotAll" and bd: "body (request c) = ''hello''" by blast
  from content_length_is_body_length[OF ev st] ev st bd show ?thesis by blast
qed

section \<open>The parser: the end of the headers of POST and PUT\<close>

lemma stoi_range: "stoi s = Inr n \<Longrightarrow> - (2 ^ 31) \<le> n \<and> n \<le> 2 ^ 31 - 1"
  by (auto simp: stoi_def Let_def split: if_splits)

lemma stoi_Nil: "stoi [] = Inl invalid_argument"
  by (simp add: stoi_def)

lemma unat_content_length:
  assumes "0 \<le> n" "n \<le> 2 ^ 31 - 1"
  shows "unat (word_of_int n :: 64 word) = nat n"
proof -
  from assms have "n < 2 ^ 64" by simp
  with assms(1) have "uint (word_of_int n :: 64 word) = n"
    by (simp add: uint_word_of_int take_bit_int_eq_self)
  then show ?thesis by (simp add: unat_eq_nat_uint)
qed

lemma parseStep_end_of_headers_body:
  assumes "state c = kExpectHeaders" "method (request c) = kPost \<or> method (request c) = kPut"
  shows "parseStep rt c (CR # LF # rest) =
     (if getHeader (request c) ''Content-Length'' \<noteq> [] then
        (case stoi (getHeader (request c) ''Content-Length'') of
           Inl e \<Rightarrow> Throw e c (CR # LF # rest)
         | Inr n \<Rightarrow>
             if (word_of_int n :: 64 word) > 0
             then Continue (c\<lparr>request := setContentLength (request c) (word_of_int n),
                             state := kExpectBody\<rparr>) rest
             else Return True (c\<lparr>request := setContentLength (request c) (word_of_int n),
                                state := kGotAll\<rparr>) rest)
      else Return False c rest)"
  using assms
  by (cases "stoi (getHeader (request c) ''Content-Length'')")
     (auto simp: parseStep_def find_char_def Let_def setContentLength_def)

lemma parseLoop_body_short:
  assumes "state cb = kExpectBody" "length buf < unat (contentLength (request cb))"
  shows "parseLoop rt cb buf = Some (Returned True, cb, buf)"
  using assms by (simp add: parseLoop.simps[of rt cb buf] parseStep_def)

lemma parseLoop_body_full:
  assumes "state cb = kExpectBody" "unat (contentLength (request cb)) \<le> length buf"
  shows "parseLoop rt cb buf =
     Some (Returned True,
           cb\<lparr>request := setBody (request cb) (take (unat (contentLength (request cb))) buf),
              state := kGotAll\<rparr>,
           drop (unat (contentLength (request cb))) buf)"
  using assms by (simp add: parseLoop.simps[of rt cb buf] parseStep_def)

lemma post_missing_content_length:
  assumes "state c = kExpectHeaders" "method (request c) = kPost \<or> method (request c) = kPut"
    "getHeader (request c) ''Content-Length'' = []"
  shows "parseRequest c (CR # LF # rest) rt = Some (Returned False, c, rest)"
  using assms
  by (simp add: parseRequest_def parseLoop.simps[of rt c] parseStep_end_of_headers_body)

lemma post_unparsable_content_length:
  assumes "state c = kExpectHeaders" "method (request c) = kPost \<or> method (request c) = kPut"
    "getHeader (request c) ''Content-Length'' \<noteq> []"
    "stoi (getHeader (request c) ''Content-Length'') = Inl e"
  shows "parseRequest c (CR # LF # rest) rt = Some (Threw e, c, CR # LF # rest)"
  using assms
  by (simp add: parseRequest_def parseLoop.simps[of rt c] parseStep_end_of_headers_body)

text \<open>
  Claim C3. At the empty line that ends the headers of a POST or PUT request whose
  \<^verbatim>\<open>Content-Length\<close> value parses to \<open>n \<ge> 0\<close>: with \<open>n = 0\<close> the call returns true in
  \<^verbatim>\<open>kGotAll\<close> and leaves the body as it is, that is empty in every context a fresh parser
  reaches; with \<open>n > 0\<close> the parser stores \<open>n\<close> and
  moves to \<^verbatim>\<open>kExpectBody\<close>, where the same call goes on. In \<^verbatim>\<open>kExpectBody\<close> with fewer
  bytes buffered than the content length a call returns true and changes neither the context
  nor the buffer; with enough bytes it takes exactly that many bytes as the body, leaves the
  rest in the buffer and ends in \<^verbatim>\<open>kGotAll\<close>.
\<close>

theorem content_length_transitions:
  assumes "state c = kExpectHeaders"
    and "method (request c) = kPost \<or> method (request c) = kPut"
    and "stoi (getHeader (request c) ''Content-Length'') = Inr n" and "0 \<le> n"
  shows "(n = 0 \<longrightarrow>
            parseRequest c (CR # LF # rest) rt =
              Some (Returned True, c\<lparr>request := setContentLength (request c) 0, state := kGotAll\<rparr>, rest)
            \<and> body (setContentLength (request c) 0) = body (request c)
            \<and> (parserInv c \<longrightarrow> body (setContentLength (request c) 0) = []))
       \<and> (0 < n \<longrightarrow>
            parseStep rt c (CR # LF # rest) =
              Continue (c\<lparr>request := setContentLength (request c) (word_of_int n),
                          state := kExpectBody\<rparr>) rest
            \<and> unat (contentLength (setContentLength (request c) (word_of_int n))) = nat n
            \<and> parseRequest c (CR # LF # rest) rt =
                parseRequest (c\<lparr>request := setContentLength (request c) (word_of_int n),
                                 state := kExpectBody\<rparr>) rest rt)
       \<and> (\<forall>cb buf rt'. state cb = kExpectBody \<and> length buf < unat (contentLength (request cb)) \<longrightarrow>
            parseRequest cb buf rt' = Some (Returned True, cb, buf))
       \<and> (\<forall>cb buf rt'. state cb = kExpectBody \<and> unat (contentLength (request cb)) \<le> length buf \<longrightarrow>
            parseRequest cb buf rt' =
              Some (Returned True,
                    cb\<lparr>request := setBody (request cb) (take (unat (contentLength (request cb))) buf),
                       state := kGotAll\<rparr>,
                    drop (unat (contentLength (request cb))) buf))"
proof -
  from assms(3) have ne: "getHeader (request c) ''Content-Length'' \<noteq> []"
    using stoi_Nil by auto
  from stoi_range[OF assms(3)] assms(4) have un: "unat (word_of_int n :: 64 word) = nat n"
    by (intro unat_content_length) simp_all
  then have pos: "(word_of_int n :: 64 word) > 0 \<longleftrightarrow> 0 < n"
    using assms(4) by (auto simp add: word_greater_zero_iff unat_eq_0[symmetric] simp del: unat_eq_0)
  note st = parseStep_end_of_headers_body[OF assms(1,2), of rt rest]
  have a: "n = 0 \<longrightarrow>
            parseRequest c (CR # LF # rest) rt =
              Some (Returned True, c\<lparr>request := setContentLength (request c) 0, state := kGotAll\<rparr>, rest)
            \<and> body (setContentLength (request c) 0) = body (request c)
            \<and> (parserInv c \<longrightarrow> body (setContentLength (request c) 0) = [])"
    using st ne assms(1,3)
    by (simp add: parseRequest_def parseLoop.simps[of rt c] setContentLength_def parserInv_def)
  have b: "0 < n \<longrightarrow>
            parseStep rt c (CR # LF # rest) =
              Continue (c\<lparr>request := setContentLength (request c) (word_of_int n),
                          state := kExpectBody\<rparr>) rest
            \<and> unat (contentLength (setContentLength (request c) (word_of_int n))) = nat n
            \<and> parseRequest c (CR # LF # rest) rt =
                parseRequest (c\<lparr>request := setContentLength (request c) (word_of_int n),
                                 state := kExpectBody\<rparr>) rest rt"
    using st ne assms(3) pos un
    by (simp add: parseRequest_def parseLoop.simps[of rt c] setContentLength_def)
  have c: "\<forall>cb buf rt'. state cb = kExpectBody \<and> length buf < unat (contentLength (request cb)) \<longrightarrow>
            parseRequest cb buf rt' = Some (Returned True, cb, buf)"
    by (simp add: parseRequest_def parseLoop_body_short)
  have d: "\<forall>cb buf rt'. state cb = kExpectBody \<and> unat (contentLength (request cb)) \<le> length buf \<longrightarrow>
            parseRequest cb buf rt' =
              Some (Returned True,
                    cb\<lparr>request := setBody (request cb) (take (unat (contentLength (request cb))) buf),
                       state := kGotAll\<rparr>,
                    drop (unat (contentLength (request cb))) buf)"
    by (simp add: parseRequest_def parseLoop_body_full)
  from a b c d show ?thesis by blast
qed

theorem content_length_transitions_witness:
  "parseRequest
     \<lparr>state = kExpectHeaders,
      request = HttpRequest_init\<lparr>method := kPost, headers := [''Content-Length'' \<mapsto> '' 0'']\<rparr>\<rparr>
     (CR # LF # ''next'') 0 =
   Some (Returned True,
     \<lparr>state = kGotAll,
      request = HttpRequest_init\<lparr>method := kPost, headers := [''Content-Length'' \<mapsto> '' 0'']\<rparr>\<rparr>,
     ''next'')
   \<and> parseStep 0
     \<lparr>state = kExpectHeaders,
      request = HttpRequest_init\<lparr>method := kPut, headers := [''Content-Length'' \<mapsto> '' 5'']\<rparr>\<rparr>
     (CR # LF # ''hel'') =
     Continue
       \<lparr>state = kExpectBody,
        request = HttpRequest_init\<lparr>method := kPut, headers := [''Content-Length'' \<mapsto> '' 5''],
                    contentLength := 5\<rparr>\<rparr> ''hel''
   \<and> parseRequest
     \<lparr>state = kExpectBody,
      request = HttpRequest_init\<lparr>method := kPut, contentLength := 5\<rparr>\<rparr> ''hel'' 1 =
     Some (Returned True,
       \<lparr>state = kExpectBody, request = HttpRequest_init\<lparr>method := kPut, contentLength := 5\<rparr>\<rparr>,
       ''hel'')
   \<and> parseRequest
     \<lparr>state = kExpectBody,
      request = HttpRequest_init\<lparr>method := kPut, contentLength := 5\<rparr>\<rparr> ''hello!'' 2 =
     Some (Returned True,
       \<lparr>state = kGotAll,
        request = HttpRequest_init\<lparr>method := kPut, body := ''hello'', contentLength := 5\<rparr>\<rparr>,
       ''!'')"
proof -
  let ?c0 = "\<lparr>state = kExpectHeaders,
      request = HttpRequest_init\<lparr>method := kPost, headers := [''Content-Length'' \<mapsto> '' 0'']\<rparr>\<rparr>"
  let ?c5 = "\<lparr>state = kExpectHeaders,
      request = HttpRequest_init\<lparr>method := kPut, headers := [''Content-Length'' \<mapsto> '' 5'']\<rparr>\<rparr>"
  let ?cb = "\<lparr>state = kExpectBody,
      request = HttpRequest_init\<lparr>method := kPut, contentLength := 5\<rparr>\<rparr>"
  have s0: "stoi (getHeader (request ?c0) ''Content-Length'') = Inr 0"
    and s5: "stoi (getHeader (request ?c5) ''Content-Length'') = Inr 5"
    by (simp_all add: getHeader_def stoi_def isspace_def isdigit_def digitsValue_def HttpRequest_init_def)
  have m0: "method (request ?c0) = kPost \<or> method (request ?c0) = kPut"
    and m5: "method (request ?c5) = kPost \<or> method (request ?c5) = kPut"
    by simp_all
  have h0: "state ?c0 = kExpectHeaders" and h5: "state ?c5 = kExpectHeaders" by simp_all
  have sb: "state ?cb = kExpectBody" and cl: "unat (contentLength (request ?cb)) = 5" by simp_all
  from content_length_transitions[OF h0 m0 s0, of "''next''" 0]
       content_length_transitions[OF h5 m5 s5, of "''hel''" 0]
       sb cl
  show ?thesis
    by (simp add: setContentLength_def setBody_def HttpRequest_init_def)
qed

text \<open>
  Claim C2, evaluated on the code. A POST request whose \<^verbatim>\<open>Content-Length\<close> value has no
  digit does not make \<^verbatim>\<open>parseRequest\<close> return false: \<^verbatim>\<open>std::stoi\<close> throws
  \<^verbatim>\<open>std::invalid_argument\<close>, nothing catches it, and the exception leaves the call. A value
  out of the range of \<^verbatim>\<open>int\<close> leaves it with \<^verbatim>\<open>std::out_of_range\<close>, and a negative value is
  accepted: the call returns true and waits for a body. Only the absent header is reported
  by the return value false.
\<close>

theorem unparsable_content_length_not_false:
  "(\<exists>c b. parseRequest HttpContext_init
            (''POST /x HTTP/1.1'' @ [CR, LF] @ ''Content-Length: abc'' @ [CR, LF, CR, LF]) 0
          = Some (Threw invalid_argument, c, b))
   \<and> (\<exists>c b. parseRequest HttpContext_init
            (''POST /x HTTP/1.1'' @ [CR, LF] @ ''Content-Length: 99999999999'' @ [CR, LF, CR, LF]) 0
          = Some (Threw out_of_range, c, b))
   \<and> (\<exists>c b. parseRequest HttpContext_init
            (''POST /x HTTP/1.1'' @ [CR, LF] @ ''Content-Length: -5'' @ [CR, LF, CR, LF]) 0
          = Some (Returned True, c, b) \<and> state c = kExpectBody)
   \<and> (\<exists>c b. parseRequest HttpContext_init
            (''POST /x HTTP/1.1'' @ [CR, LF] @ ''Host: h'' @ [CR, LF, CR, LF]) 0
          = Some (Returned False, c, b))"
  by (simp add: parseLoop.simps parser_eval word_greater_zero_iff)

section \<open>The pool: the bookkeeping invariant\<close>

lemma connInv_same:
  assumes "connInv w" "connections (pool w') = connections (pool w)" "heap w' = heap w"
    "\<And>u c. holds (calls w' u) c = holds (calls w u) c"
  shows "connInv w'"
  using assms by (simp add: connInv_def)

lemma holds_upd_idle:
  assumes "\<And>c. \<not> holds (calls w t) c" "\<And>c. \<not> holds s c"
  shows "holds (((calls w)(t := s)) u) c = holds (calls w u) c"
  using assms by (cases "u = t") simp_all

lemma notify_one_cases:
  "notify_one k w = w \<and> cv (pool w) = [] \<or>
   (\<exists>t \<in> set (cv (pool w)).
      notify_one k w =
        w\<lparr>pool := (pool w)\<lparr>cv := remove1 t (cv (pool w))\<rparr>, calls := (calls w)(t := Woken)\<rparr>)"
proof (cases "cv (pool w) = []")
  case True
  then show ?thesis by (simp add: notify_one_def)
next
  case False
  then have "cv (pool w) ! (k mod length (cv (pool w))) \<in> set (cv (pool w))" by simp
  with False show ?thesis by (auto simp: notify_one_def Let_def)
qed

lemma wake_inv:
  assumes "poolInv w" "t \<in> set (cv (pool w))"
  shows "poolInv (w\<lparr>pool := (pool w)\<lparr>cv := remove1 t (cv (pool w))\<rparr>, calls := (calls w)(t := Woken)\<rparr>)"
    (is "poolInv ?w'")
proof -
  from assms have tw: "calls w t = Waiting" and d: "distinct (cv (pool w))"
    and m: "\<And>u. u \<in> set (cv (pool w)) \<longleftrightarrow> calls w u = Waiting"
    and ci: "connInv w"
    by (simp_all add: poolInv_def cvInv_def)
  have h: "holds (((calls w)(t := Woken)) u) c = holds (calls w u) c" for u c
    using tw by (cases "u = t") simp_all
  have "connInv ?w'"
    by (rule connInv_same[OF ci]) (simp_all add: h del: fun_upd_apply)
  moreover have "distinct (cv (pool ?w'))" using d by simp
  moreover have "u \<in> set (cv (pool ?w')) \<longleftrightarrow> calls ?w' u = Waiting" for u
  proof (cases "u = t")
    case True
    with d show ?thesis by simp
  next
    case False
    with d m[of u] show ?thesis by simp
  qed
  ultimately show ?thesis by (simp add: poolInv_def cvInv_def del: fun_upd_apply)
qed

lemma notify_one_inv:
  assumes "poolInv w"
  shows "poolInv (notify_one k w)"
proof -
  from notify_one_cases[of k w] show ?thesis
  proof
    assume "notify_one k w = w \<and> cv (pool w) = []"
    with assms show ?thesis by simp
  next
    assume "\<exists>t \<in> set (cv (pool w)). notify_one k w =
        w\<lparr>pool := (pool w)\<lparr>cv := remove1 t (cv (pool w))\<rparr>, calls := (calls w)(t := Woken)\<rparr>"
    then obtain t where "t \<in> set (cv (pool w))" and eq: "notify_one k w =
        w\<lparr>pool := (pool w)\<lparr>cv := remove1 t (cv (pool w))\<rparr>, calls := (calls w)(t := Woken)\<rparr>"
      by blast
    from wake_inv[OF assms this(1)] eq show ?thesis by simp
  qed
qed

lemma connInv_cong:
  assumes "connections (pool w') = connections (pool w)" "heap w' = heap w" "calls w' = calls w"
  shows "connInv w' = connInv w"
  using assms by (simp add: connInv_def)

lemma cvInv_cong:
  assumes "cv (pool w') = cv (pool w)" "calls w' = calls w"
  shows "cvInv w' = cvInv w"
  using assms by (simp add: cvInv_def)

lemma connInv_upd_idle:
  assumes "connInv w" "\<And>c. \<not> holds (calls w t) c" "\<And>c. \<not> holds s c"
  shows "connInv (w\<lparr>calls := (calls w)(t := s)\<rparr>)"
proof (rule connInv_same[OF assms(1)])
  fix u c
  show "holds (calls (w\<lparr>calls := (calls w)(t := s)\<rparr>) u) c = holds (calls w u) c"
    using assms(2,3) by (cases "u = t") simp_all
qed simp_all

lemma connInv_pop:
  assumes "connInv w" "connections (pool w) = c # cs" "\<And>c'. \<not> holds (calls w t) c'"
  shows "connInv (w\<lparr>pool := (pool w)\<lparr>connections := cs\<rparr>, calls := (calls w)(t := Checking c)\<rparr>)"
    (is "connInv ?w'")
proof -
  from assms(1,2) have d: "distinct (c # cs)"
    and ex: "\<And>c'. c' < length (heap w) \<longleftrightarrow> c' \<in> set (c # cs) \<or> (\<exists>u. holds (calls w u) c')"
    and nq: "\<And>c' u. holds (calls w u) c' \<Longrightarrow> c' \<notin> set (c # cs)"
    and un: "\<And>c' u u'. holds (calls w u) c' \<Longrightarrow> holds (calls w u') c' \<Longrightarrow> u = u'"
    by (auto simp: connInv_def)
  have h: "holds (((calls w)(t := Checking c)) u) c' \<longleftrightarrow> (u = t \<and> c' = c) \<or> holds (calls w u) c'"
    for u c'
    using assms(3) by (cases "u = t") auto
  have nobody: "\<not> holds (calls w u) c" for u using nq[of u c] by auto
  have 1: "distinct (connections (pool ?w'))" using d by simp
  have 2: "c' < length (heap ?w') \<longleftrightarrow>
        c' \<in> set (connections (pool ?w')) \<or> (\<exists>u. holds (calls ?w' u) c')" for c'
    using ex[of c'] by (auto simp add: h simp del: fun_upd_apply)
  have 3: "c' \<notin> set (connections (pool ?w'))" if "holds (calls ?w' u) c'" for c' u
    using that d nq[of u c'] by (auto simp add: h simp del: fun_upd_apply)
  have 4: "u = u'" if "holds (calls ?w' u) c'" "holds (calls ?w' u') c'" for c' u u'
    using that un[of u c' u'] nobody by (auto simp add: h simp del: fun_upd_apply)
  from 1 2 3 4 show ?thesis unfolding connInv_def by blast
qed

lemma connInv_lease:
  assumes "connInv w" "calls w t = Checking c"
  shows "connInv (w\<lparr>calls := (calls w)(t := Leased c)\<rparr>)"
proof (rule connInv_same[OF assms(1)])
  fix u c'
  show "holds (calls (w\<lparr>calls := (calls w)(t := Leased c)\<rparr>) u) c' = holds (calls w u) c'"
    using assms(2) by (cases "u = t") simp_all
qed simp_all

lemma connInv_push:
  assumes "connInv w" "holds (calls w t) c" "\<And>c'. \<not> holds s c'"
  shows "connInv (w\<lparr>pool := (pool w)\<lparr>connections := connections (pool w) @ [c]\<rparr>,
                    calls := (calls w)(t := s)\<rparr>)"
    (is "connInv ?w'")
proof -
  from assms(1) have d: "distinct (connections (pool w))"
    and ex: "\<And>c'. c' < length (heap w) \<longleftrightarrow>
                c' \<in> set (connections (pool w)) \<or> (\<exists>u. holds (calls w u) c')"
    and nq: "\<And>c' u. holds (calls w u) c' \<Longrightarrow> c' \<notin> set (connections (pool w))"
    and un: "\<And>c' u u'. holds (calls w u) c' \<Longrightarrow> holds (calls w u') c' \<Longrightarrow> u = u'"
    by (auto simp: connInv_def)
  have only: "c' = c" if "holds (calls w t) c'" for c'
    using that assms(2) by (cases "calls w t") auto
  have h: "holds (((calls w)(t := s)) u) c' \<longleftrightarrow> u \<noteq> t \<and> holds (calls w u) c'" for u c'
    using assms(3) by (cases "u = t") auto
  have other: "c' \<noteq> c" if "holds (calls w u) c'" "u \<noteq> t" for u c'
    using that un[of u c' t] assms(2) by auto
  have 1: "distinct (connections (pool ?w'))" using d nq[OF assms(2)] by simp
  have 2: "c' < length (heap ?w') \<longleftrightarrow>
        c' \<in> set (connections (pool ?w')) \<or> (\<exists>u. holds (calls ?w' u) c')" for c'
  proof (cases "c' = c")
    case True
    with ex[of c] assms(2) show ?thesis by (auto simp add: h simp del: fun_upd_apply)
  next
    case False
    with only[of c'] have nt: "\<not> holds (calls w t) c'" by auto
    have "(\<exists>u. holds (calls w u) c') \<longleftrightarrow> (\<exists>u. u \<noteq> t \<and> holds (calls w u) c')"
      using nt by metis
    with ex[of c'] False show ?thesis by (simp add: h del: fun_upd_apply)
  qed
  have 3: "c' \<notin> set (connections (pool ?w'))" if "holds (calls ?w' u) c'" for c' u
    using that nq[of u c'] other[of u c'] by (auto simp add: h simp del: fun_upd_apply)
  have 4: "u = u'" if "holds (calls ?w' u) c'" "holds (calls ?w' u') c'" for c' u u'
    using that un[of u c' u'] by (auto simp add: h simp del: fun_upd_apply)
  from 1 2 3 4 show ?thesis unfolding connInv_def by blast
qed

lemma cvInv_upd_other:
  assumes "cvInv w" "calls w t \<noteq> Waiting" "s \<noteq> Waiting"
  shows "cvInv (w\<lparr>calls := (calls w)(t := s)\<rparr>)"
proof -
  from assms(1) have d: "distinct (cv (pool w))"
    and m: "\<And>u. u \<in> set (cv (pool w)) \<longleftrightarrow> calls w u = Waiting" by (simp_all add: cvInv_def)
  have "u \<in> set (cv (pool w)) \<longleftrightarrow> ((calls w)(t := s)) u = Waiting" for u
    using m[of u] assms(2,3) by (cases "u = t") simp_all
  with d show ?thesis by (simp add: cvInv_def del: fun_upd_apply)
qed

lemma cvInv_wait:
  assumes "cvInv w" "calls w t \<noteq> Waiting"
  shows "cvInv (w\<lparr>pool := (pool w)\<lparr>cv := cv (pool w) @ [t]\<rparr>, calls := (calls w)(t := Waiting)\<rparr>)"
proof -
  from assms(1) have d: "distinct (cv (pool w))"
    and m: "\<And>u. u \<in> set (cv (pool w)) \<longleftrightarrow> calls w u = Waiting" by (simp_all add: cvInv_def)
  from m[of t] assms(2) have tn: "t \<notin> set (cv (pool w))" by simp
  have "u \<in> set (cv (pool w) @ [t]) \<longleftrightarrow> ((calls w)(t := Waiting)) u = Waiting" for u
    using m[of u] by (cases "u = t") simp_all
  with d tn show ?thesis by (simp add: cvInv_def del: fun_upd_apply)
qed

lemma lockedSection_inv:
  assumes "poolInv w" "calls w t = NotStarted \<or> calls w t = Woken"
  shows "poolInv (lockedSection t w)"
proof -
  from assms(1) have ci: "connInv w" and cvi: "cvInv w" by (simp_all add: poolInv_def)
  have nh: "\<And>c. \<not> holds (calls w t) c" using assms(2) by auto
  have nw: "calls w t \<noteq> Waiting" using assms(2) by auto
  show ?thesis
  proof (cases "connections (pool w)")
    case Nil
    show ?thesis
    proof (cases "initialized (pool w)")
      case True
      let ?w' = "w\<lparr>pool := (pool w)\<lparr>cv := cv (pool w) @ [t]\<rparr>, calls := (calls w)(t := Waiting)\<rparr>"
      have eq: "lockedSection t w = ?w'" using Nil True by (simp add: lockedSection_def)
      have "connInv (w\<lparr>calls := (calls w)(t := Waiting)\<rparr>)"
        using ci nh by (rule connInv_upd_idle) simp
      then have "connInv ?w'" by (simp add: connInv_cong[of ?w' "w\<lparr>calls := (calls w)(t := Waiting)\<rparr>"])
      with cvInv_wait[OF cvi nw] show ?thesis by (simp add: eq poolInv_def)
    next
      case False
      let ?e = "Raised (DbException ''Connection pool not initialized'')"
      have eq: "lockedSection t w = w\<lparr>calls := (calls w)(t := ?e)\<rparr>"
        using Nil False by (simp add: lockedSection_def)
      have "connInv (w\<lparr>calls := (calls w)(t := ?e)\<rparr>)"
        using ci nh by (rule connInv_upd_idle) simp
      moreover have "cvInv (w\<lparr>calls := (calls w)(t := ?e)\<rparr>)"
        using cvi nw by (rule cvInv_upd_other) simp
      ultimately show ?thesis by (simp add: eq poolInv_def)
    qed
  next
    case (Cons c cs)
    let ?w' = "w\<lparr>pool := (pool w)\<lparr>connections := cs\<rparr>, calls := (calls w)(t := Checking c)\<rparr>"
    have eq: "lockedSection t w = ?w'" using Cons by (simp add: lockedSection_def)
    have "cvInv (w\<lparr>calls := (calls w)(t := Checking c)\<rparr>)"
      using cvi nw by (rule cvInv_upd_other) simp
    then have "cvInv ?w'" by (simp add: cvInv_cong[of ?w' "w\<lparr>calls := (calls w)(t := Checking c)\<rparr>"])
    with connInv_pop[OF ci Cons nh] show ?thesis by (simp add: eq poolInv_def)
  qed
qed

lemma giveBack_then_set:
  assumes "cvInv w" "calls w t \<noteq> Waiting"
  shows "(giveBack c k w)\<lparr>calls := (calls (giveBack c k w))(t := s)\<rparr> =
         notify_one k (w\<lparr>pool := (pool w)\<lparr>connections := connections (pool w) @ [c]\<rparr>,
                         calls := (calls w)(t := s)\<rparr>)"
proof (cases "cv (pool w) = []")
  case True
  then show ?thesis by (simp add: giveBack_def notify_one_def)
next
  case False
  define u where "u = cv (pool w) ! (k mod length (cv (pool w)))"
  from False have "u \<in> set (cv (pool w))" by (simp add: u_def)
  with assms have "u \<noteq> t" by (auto simp: cvInv_def)
  then have "(calls w)(u := Woken, t := s) = (calls w)(t := s, u := Woken)"
    by (rule fun_upd_twist)
  with False show ?thesis
    by (simp add: giveBack_def notify_one_def Let_def u_def[symmetric])
qed

lemma giveBack_inv:
  assumes "poolInv w" "holds (calls w t) c" "\<And>c'. \<not> holds s c'" "s \<noteq> Waiting"
  shows "poolInv ((giveBack c k w)\<lparr>calls := (calls (giveBack c k w))(t := s)\<rparr>)"
proof -
  from assms(1) have ci: "connInv w" and cvi: "cvInv w" by (simp_all add: poolInv_def)
  from assms(2) have nw: "calls w t \<noteq> Waiting" by auto
  let ?w1 = "w\<lparr>pool := (pool w)\<lparr>connections := connections (pool w) @ [c]\<rparr>,
                calls := (calls w)(t := s)\<rparr>"
  have "cvInv (w\<lparr>calls := (calls w)(t := s)\<rparr>)" using cvi nw assms(4) by (rule cvInv_upd_other)
  then have "cvInv ?w1" by (simp add: cvInv_cong[of ?w1 "w\<lparr>calls := (calls w)(t := s)\<rparr>"])
  with connInv_push[OF ci assms(2,3)] have "poolInv ?w1" by (simp add: poolInv_def)
  then have "poolInv (notify_one k ?w1)" by (rule notify_one_inv)
  then show ?thesis by (simp add: giveBack_then_set[OF cvi nw])
qed

lemma checkSection_inv:
  assumes "poolInv w"
  shows "poolInv (checkSection t pr rr k w)"
proof (cases "calls w t")
  case (Checking c)
  from assms have ci: "connInv w" and cvi: "cvInv w" by (simp_all add: poolInv_def)
  have lease: "poolInv (w\<lparr>calls := (calls w)(t := Leased c)\<rparr>)"
    using connInv_lease[OF ci Checking] cvInv_upd_other[OF cvi, of t "Leased c"] Checking
    by (simp add: poolInv_def)
  have h: "holds (calls w t) c" using Checking by simp
  have fail: "poolInv ((giveBack c k w)\<lparr>calls := (calls (giveBack c k w))(t := Raised e)\<rparr>)" for e
    using assms h by (rule giveBack_inv) simp_all
  show ?thesis
    using Checking lease fail
    by (cases pr; cases rr) (simp_all add: checkSection_def Let_def)
qed (use assms in \<open>simp_all add: checkSection_def\<close>)

lemma release_inv:
  assumes "poolInv w"
  shows "poolInv (release t k w)"
proof (cases "calls w t")
  case (Leased c)
  have h: "holds (calls w t) c" using Leased by simp
  have "poolInv ((giveBack c k w)\<lparr>calls := (calls (giveBack c k w))(t := Finished)\<rparr>)"
    using assms h by (rule giveBack_inv) simp_all
  with Leased show ?thesis by (simp add: release_def Let_def)
qed (use assms in \<open>simp_all add: release_def\<close>)

section \<open>The pool: every transition keeps the invariant\<close>

lemma createConnections_eq:
  "createConnections n w =
     w\<lparr>heap := heap w @ replicate n (host (pool w), user (pool w), password (pool w), database (pool w)),
       pool := (pool w)\<lparr>connections :=
                 connections (pool w) @ [length (heap w) ..< length (heap w) + n]\<rparr>\<rparr>"
proof (induction n arbitrary: w)
  case 0
  then show ?case by simp
next
  case (Suc n)
  have "[length (heap w) ..< length (heap w) + Suc n] =
        length (heap w) # [Suc (length (heap w)) ..< Suc (length (heap w)) + n]"
    by (simp add: upt_rec)
  then show ?case
    by (simp add: Suc.IH createConnection_def replicate_app_Cons_same)
qed

lemma connInv_create:
  assumes "connInv w"
  shows "connInv (w\<lparr>heap := heap w @ xs,
       pool := (pool w)\<lparr>connections :=
                 connections (pool w) @ [length (heap w) ..< length (heap w) + length xs]\<rparr>\<rparr>)"
    (is "connInv ?w'")
proof -
  from assms have d: "distinct (connections (pool w))"
    and ex: "\<And>c'. c' < length (heap w) \<longleftrightarrow>
                c' \<in> set (connections (pool w)) \<or> (\<exists>u. holds (calls w u) c')"
    and nq: "\<And>c' u. holds (calls w u) c' \<Longrightarrow> c' \<notin> set (connections (pool w))"
    and un: "\<And>c' u u'. holds (calls w u) c' \<Longrightarrow> holds (calls w u') c' \<Longrightarrow> u = u'"
    by (auto simp: connInv_def)
  have lt: "c' < length (heap w)" if "c' \<in> set (connections (pool w))" for c'
    using ex[of c'] that by simp
  have lt2: "c' < length (heap w)" if "holds (calls w u) c'" for c' u
    using ex[of c'] that by auto
  have 1: "distinct (connections (pool ?w'))" using d lt by (auto dest: lt)
  have 2: "c' < length (heap ?w') \<longleftrightarrow>
        c' \<in> set (connections (pool ?w')) \<or> (\<exists>u. holds (calls ?w' u) c')" for c'
    using ex[of c'] by (cases "c' < length (heap w)") auto
  have 3: "c' \<notin> set (connections (pool ?w'))" if "holds (calls ?w' u) c'" for c' u
    using that nq[of u c'] lt2[of u c'] by auto
  have 4: "u = u'" if "holds (calls ?w' u) c'" "holds (calls ?w' u') c'" for c' u u'
    using that un[of u c' u'] by simp
  from 1 2 3 4 show ?thesis unfolding connInv_def by blast
qed

lemma init_eq:
  "init h u p d n w =
    (if initialized (pool w) then w
     else w\<lparr>heap := heap w @ replicate n (h, u, p, d),
            pool := (pool w)\<lparr>host := h, user := u, password := p, database := d,
                      connections := connections (pool w) @ [length (heap w) ..< length (heap w) + n],
                      initialized := True\<rparr>\<rparr>)"
  by (simp add: init_def createConnections_eq Let_def)

lemma init_inv:
  assumes "poolInv w"
  shows "poolInv (init h u p d n w)"
proof (cases "initialized (pool w)")
  case True
  with assms show ?thesis by (simp add: init_eq)
next
  case False
  let ?w1 = "w\<lparr>heap := heap w @ replicate n (h, u, p, d),
       pool := (pool w)\<lparr>connections :=
                 connections (pool w) @ [length (heap w) ..< length (heap w) + length (replicate n (h, u, p, d))]\<rparr>\<rparr>"
  from assms have "connInv ?w1" by (intro connInv_create) (simp add: poolInv_def)
  moreover have "connInv (init h u p d n w) = connInv ?w1"
    using False by (intro connInv_cong) (simp_all add: init_eq)
  ultimately have "connInv (init h u p d n w)" by simp
  moreover have "cvInv (init h u p d n w) = cvInv w"
    using False by (intro cvInv_cong) (simp_all add: init_eq)
  moreover have "cvInv w" using assms by (simp add: poolInv_def)
  ultimately show ?thesis by (simp add: poolInv_def)
qed

lemma poolInv_init: "poolInv world_init"
  by (simp add: poolInv_def connInv_def cvInv_def world_init_def)

lemma spurious_inv:
  assumes "poolInv w" "calls w t = Waiting"
  shows "poolInv (w\<lparr>pool := (pool w)\<lparr>cv := remove1 t (cv (pool w))\<rparr>, calls := (calls w)(t := Woken)\<rparr>)"
  using assms by (intro wake_inv) (simp_all add: poolInv_def cvInv_def)

lemma step_inv:
  assumes "poolInv w"
  shows "poolInv (step w ev)"
proof (cases ev)
  case (Init h u p d n)
  with assms show ?thesis by (simp add: init_inv)
next
  case (Acquire t)
  with assms show ?thesis by (simp add: lockedSection_inv)
next
  case (Spurious t)
  with assms show ?thesis by (simp add: spurious_inv del: fun_upd_apply)
next
  case (Resume t)
  with assms show ?thesis by (simp add: lockedSection_inv)
next
  case (Check t pr rr k)
  with assms show ?thesis by (simp add: checkSection_inv)
next
  case (Release t k)
  with assms show ?thesis by (simp add: release_inv)
next
  case (HealthCheck pings recs)
  with assms show ?thesis by (simp add: checkConnections_def split: option.splits)
qed

lemma run_append: "run w (evs @ evs') = run (run w evs) evs'"
  by (simp add: run_def)

lemma run_snoc: "run w (evs @ [ev]) = step (run w evs) ev"
  by (simp add: run_def)

lemma run_inv: "poolInv w \<Longrightarrow> poolInv (run w evs)"
  by (induction evs rule: rev_induct) (simp_all add: run_snoc step_inv, simp add: run_def)

section \<open>The pool: what initialization fixes\<close>

lemma notify_one_fixed: "fixedPart (notify_one k w) = fixedPart w"
  by (simp add: notify_one_def fixedPart_def Let_def)

lemma giveBack_fixed: "fixedPart (giveBack c k w) = fixedPart w"
  by (simp add: giveBack_def notify_one_def fixedPart_def Let_def)

lemma lockedSection_fixed: "fixedPart (lockedSection t w) = fixedPart w"
  by (simp add: lockedSection_def fixedPart_def split: list.splits)

lemma checkSection_fixed: "fixedPart (checkSection t pr rr k w) = fixedPart w"
  using giveBack_fixed[of _ k w]
  by (simp add: checkSection_def fixedPart_def Let_def
      split: call_state.splits ping_result.splits reconnect_result.splits)

lemma release_fixed: "fixedPart (release t k w) = fixedPart w"
  using giveBack_fixed[of _ k w]
  by (simp add: release_def fixedPart_def Let_def split: call_state.splits)

lemma step_fixed:
  assumes "initialized (pool w)"
  shows "fixedPart (step w ev) = fixedPart w"
proof (cases ev)
  case (Init h u p d n)
  with assms show ?thesis by (simp add: init_eq)
next
  case (Acquire t)
  then show ?thesis by (simp add: lockedSection_fixed)
next
  case (Spurious t)
  then show ?thesis by (simp add: fixedPart_def)
next
  case (Resume t)
  then show ?thesis by (simp add: lockedSection_fixed)
next
  case (Check t pr rr k)
  then show ?thesis by (simp add: checkSection_fixed)
next
  case (Release t k)
  then show ?thesis by (simp add: release_fixed)
next
  case (HealthCheck pings recs)
  then show ?thesis by (simp add: checkConnections_def split: option.splits)
qed

lemma run_fixed:
  assumes "initialized (pool w)"
  shows "fixedPart (run w evs) = fixedPart w"
proof (induction evs rule: rev_induct)
  case Nil
  show ?case by (simp add: run_def)
next
  case (snoc ev evs)
  then have "initialized (pool (run w evs))" using assms by (simp add: fixedPart_def)
  from step_fixed[OF this, of ev] snoc show ?case by (simp add: run_snoc)
qed

lemma step_uninit:
  assumes "uninitInv w"
  shows "uninitInv (step w ev)"
proof (cases "initialized (pool w)")
  case True
  from step_fixed[OF True, of ev] True have "initialized (pool (step w ev))"
    by (simp add: fixedPart_def)
  then show ?thesis by (simp add: uninitInv_def)
next
  case False
  with assms have c: "connections (pool w) = []" and hp: "heap w = []" and cvn: "cv (pool w) = []"
    and cl: "\<And>t. calls w t = NotStarted \<or> (\<exists>e. calls w t = Raised e)"
    by (simp_all add: uninitInv_def)
  show ?thesis
  proof (cases ev)
    case (Init h u p d n)
    then show ?thesis by (simp add: init_eq uninitInv_def)
  next
    case (Acquire t)
    with False c hp cvn cl show ?thesis by (auto simp: lockedSection_def uninitInv_def)
  next
    case (Spurious t)
    with assms cl[of t] show ?thesis by auto
  next
    case (Resume t)
    with assms cl[of t] show ?thesis by auto
  next
    case (Check t pr rr k)
    with assms cl[of t] show ?thesis by (auto simp: checkSection_def)
  next
    case (Release t k)
    with assms cl[of t] show ?thesis by (auto simp: release_def)
  next
    case (HealthCheck pings recs)
    with assms show ?thesis by (simp add: checkConnections_def split: option.splits)
  qed
qed

lemma run_uninit: "uninitInv w \<Longrightarrow> uninitInv (run w evs)"
  by (induction evs rule: rev_induct) (simp_all add: run_snoc step_uninit, simp add: run_def)

lemma uninitInv_init: "uninitInv world_init"
  by (simp add: uninitInv_def world_init_def)

text \<open>
  Claim C9. \<^verbatim>\<open>init\<close> on a pool that is already initialized changes nothing, whatever its
  arguments: the stored host, user, password and database, the connections and their number
  stay as they were.
\<close>

theorem init_idempotent:
  assumes "initialized (pool w)"
  shows "init h u p d n w = w"
  using assms by (simp add: init_def)

theorem init_idempotent_witness:
  "initialized (pool (init ''db1'' ''alice'' ''pw'' ''shop'' 2 world_init))
   \<and> init ''db2'' ''bob'' ''secret'' ''other'' 5 (init ''db1'' ''alice'' ''pw'' ''shop'' 2 world_init)
       = init ''db1'' ''alice'' ''pw'' ''shop'' 2 world_init
   \<and> host (pool (init ''db2'' ''bob'' ''secret'' ''other'' 5
                    (init ''db1'' ''alice'' ''pw'' ''shop'' 2 world_init))) = ''db1''
   \<and> connections (pool (init ''db2'' ''bob'' ''secret'' ''other'' 5
                    (init ''db1'' ''alice'' ''pw'' ''shop'' 2 world_init))) = [0, 1]"
proof -
  have i: "initialized (pool (init ''db1'' ''alice'' ''pw'' ''shop'' 2 world_init))"
    by (simp add: init_eq world_init_def)
  have c: "host (pool (init ''db1'' ''alice'' ''pw'' ''shop'' 2 world_init)) = ''db1''"
    "connections (pool (init ''db1'' ''alice'' ''pw'' ''shop'' 2 world_init)) = [0, 1]"
    by (simp_all add: init_eq world_init_def upt_rec)
  from init_idempotent[OF i, of "''db2''" "''bob''" "''secret''" "''other''" 5] i c
  show ?thesis by simp
qed

section \<open>The pool: acquiring, checking and releasing connections\<close>

lemma reachable_inv: "poolInv (run world_init evs)" "uninitInv (run world_init evs)"
  by (simp_all add: run_inv poolInv_init run_uninit uninitInv_init)

text \<open>The equations that evaluate the transitions on a concrete input.\<close>

lemmas pool_eval =
  run_def init_eq world_init_def lockedSection_def checkSection_def release_def giveBack_def
  notify_one_def checkConnections_def Let_def

lemma giveBack_effect:
  assumes "cvInv w"
  shows "connections (pool (giveBack c k w)) = connections (pool w) @ [c]
       \<and> (cv (pool w) = [] \<longrightarrow> cv (pool (giveBack c k w)) = [] \<and> calls (giveBack c k w) = calls w)
       \<and> (cv (pool w) \<noteq> [] \<longrightarrow>
            (\<exists>u \<in> set (cv (pool w)). calls w u = Waiting
               \<and> cv (pool (giveBack c k w)) = remove1 u (cv (pool w))
               \<and> calls (giveBack c k w) = (calls w)(u := Woken)))"
proof (cases "cv (pool w) = []")
  case True
  then show ?thesis by (simp add: giveBack_def notify_one_def)
next
  case False
  define u where "u = cv (pool w) ! (k mod length (cv (pool w)))"
  from False have uin: "u \<in> set (cv (pool w))" by (simp add: u_def)
  with assms have "calls w u = Waiting" by (simp add: cvInv_def)
  with uin False show ?thesis
    by (auto simp: giveBack_def notify_one_def Let_def u_def[symmetric])
qed

text \<open>
  Claim C6. A call that holds connection \<open>c\<close> and whose \<^verbatim>\<open>ping\<close> or \<^verbatim>\<open>reconnect\<close> raises the
  error \<open>e\<close> ends with that error, and in the same locked section of the handler the
  connection is pushed back to the queue of idle connections and \<^verbatim>\<open>notify_one\<close> wakes exactly
  one of the waiting calls (none if none waits); every other call is left as it was and the
  bookkeeping of the pool still accounts for every connection.
\<close>

theorem failed_check_returns_connection:
  assumes "w = run world_init evs" and "calls w t = Checking c"
    and "pr = PingThrows e \<or> (pr = PingFalse \<and> rr = ReconnectThrows e)"
    and "w' = step w (Check t pr rr k)"
  shows "calls w' t = Raised e
       \<and> connections (pool w') = connections (pool w) @ [c]
       \<and> (cv (pool w) = [] \<longrightarrow> cv (pool w') = [] \<and> (\<forall>v. v \<noteq> t \<longrightarrow> calls w' v = calls w v))
       \<and> (cv (pool w) \<noteq> [] \<longrightarrow>
            (\<exists>u \<in> set (cv (pool w)). calls w u = Waiting \<and> calls w' u = Woken
               \<and> cv (pool w') = remove1 u (cv (pool w))
               \<and> (\<forall>v. v \<noteq> u \<and> v \<noteq> t \<longrightarrow> calls w' v = calls w v)))
       \<and> poolInv w'"
proof -
  from assms(1) have inv: "poolInv w" by (simp add: reachable_inv)
  then have cvi: "cvInv w" by (simp add: poolInv_def)
  from assms(2,3,4) have eq: "w' = (giveBack c k w)\<lparr>calls := (calls (giveBack c k w))(t := Raised e)\<rparr>"
    by (auto simp: checkSection_def Let_def)
  from cvi assms(2) have tn: "t \<notin> set (cv (pool w))" by (simp add: cvInv_def)
  note gb = giveBack_effect[OF cvi, of c k]
  have 1: "calls w' t = Raised e" by (simp add: eq)
  have 2: "connections (pool w') = connections (pool w) @ [c]" using gb by (simp add: eq)
  have 3: "cv (pool w) = [] \<longrightarrow> cv (pool w') = [] \<and> (\<forall>v. v \<noteq> t \<longrightarrow> calls w' v = calls w v)"
    using gb by (simp add: eq)
  have 4: "cv (pool w) \<noteq> [] \<longrightarrow>
            (\<exists>u \<in> set (cv (pool w)). calls w u = Waiting \<and> calls w' u = Woken
               \<and> cv (pool w') = remove1 u (cv (pool w))
               \<and> (\<forall>v. v \<noteq> u \<and> v \<noteq> t \<longrightarrow> calls w' v = calls w v))"
  proof
    assume "cv (pool w) \<noteq> []"
    with gb obtain u where u: "u \<in> set (cv (pool w))" "calls w u = Waiting"
      "cv (pool (giveBack c k w)) = remove1 u (cv (pool w))"
      "calls (giveBack c k w) = (calls w)(u := Woken)" by blast
    with tn have "u \<noteq> t" by auto
    with u show "\<exists>u \<in> set (cv (pool w)). calls w u = Waiting \<and> calls w' u = Woken
               \<and> cv (pool w') = remove1 u (cv (pool w))
               \<and> (\<forall>v. v \<noteq> u \<and> v \<noteq> t \<longrightarrow> calls w' v = calls w v)"
      by (intro bexI[of _ u]) (simp_all add: eq)
  qed
  have 5: "poolInv w'" using assms(4) inv by (simp add: checkSection_inv)
  from 1 2 3 4 5 show ?thesis by blast
qed

theorem failed_check_returns_connection_witness:
  "calls (run world_init [Init ''h'' ''u'' ''p'' ''d'' 1, Acquire 0, Acquire 1, Acquire 2]) 0 = Checking 0
   \<and> cv (pool (run world_init [Init ''h'' ''u'' ''p'' ''d'' 1, Acquire 0, Acquire 1, Acquire 2])) = [1, 2]
   \<and> calls (step (run world_init [Init ''h'' ''u'' ''p'' ''d'' 1, Acquire 0, Acquire 1, Acquire 2])
              (Check 0 PingFalse (ReconnectThrows (DbException ''gone'')) 1)) 0
       = Raised (DbException ''gone'')
   \<and> connections (pool (step (run world_init [Init ''h'' ''u'' ''p'' ''d'' 1, Acquire 0, Acquire 1, Acquire 2])
              (Check 0 PingFalse (ReconnectThrows (DbException ''gone'')) 1))) = [0]
   \<and> cv (pool (step (run world_init [Init ''h'' ''u'' ''p'' ''d'' 1, Acquire 0, Acquire 1, Acquire 2])
              (Check 0 PingFalse (ReconnectThrows (DbException ''gone'')) 1))) = [1]
   \<and> calls (step (run world_init [Init ''h'' ''u'' ''p'' ''d'' 1, Acquire 0, Acquire 1, Acquire 2])
              (Check 0 PingFalse (ReconnectThrows (DbException ''gone'')) 1)) 2 = Woken
   \<and> poolInv (step (run world_init [Init ''h'' ''u'' ''p'' ''d'' 1, Acquire 0, Acquire 1, Acquire 2])
              (Check 0 PingFalse (ReconnectThrows (DbException ''gone'')) 1))"
proof -
  let ?w = "run world_init [Init ''h'' ''u'' ''p'' ''d'' 1, Acquire 0, Acquire 1, Acquire 2]"
  have a: "calls ?w 0 = Checking 0" and b: "cv (pool ?w) = [1, 2]"
    and c: "connections (pool ?w) = []"
    by (simp_all add: pool_eval)
  have d: "PingFalse = PingThrows (DbException ''gone'') \<or>
      (PingFalse = PingFalse \<and>
       ReconnectThrows (DbException ''gone'') = ReconnectThrows (DbException ''gone''))"
    by simp
  have e: "cv (pool (step ?w (Check 0 PingFalse (ReconnectThrows (DbException ''gone'')) 1))) = [1]"
    and f: "calls (step ?w (Check 0 PingFalse (ReconnectThrows (DbException ''gone'')) 1)) 2 = Woken"
    by (simp_all add: pool_eval)
  from failed_check_returns_connection[OF refl a d refl, of 1] a b c e f
  show ?thesis by simp
qed

text \<open>
  What the first block of \<^verbatim>\<open>getConnection\<close> does once the call holds the mutex, in a state
  the system can reach. On a pool that was never initialized the call throws "Connection pool
  not initialized" and is not put on the wait list. On an initialized pool a new call, and
  likewise a woken call that tests the loop condition again, waits while the queue of idle
  connections is empty and takes the front connection as soon as there is one.
\<close>

lemma lockedSection_outcomes:
  assumes "w = run world_init evs"
  shows "(\<not> initialized (pool w) \<and> calls w t = NotStarted \<longrightarrow>
            step w (Acquire t) =
              w\<lparr>calls := (calls w)(t := Raised (DbException ''Connection pool not initialized''))\<rparr>
            \<and> calls (step w (Acquire t)) t \<noteq> Waiting
            \<and> t \<notin> set (cv (pool (step w (Acquire t)))))
       \<and> (initialized (pool w) \<and> connections (pool w) = [] \<and> calls w t = NotStarted \<longrightarrow>
            calls (step w (Acquire t)) t = Waiting
            \<and> cv (pool (step w (Acquire t))) = cv (pool w) @ [t]
            \<and> connections (pool (step w (Acquire t))) = [])
       \<and> (initialized (pool w) \<and> connections (pool w) = [] \<and> calls w t = Woken \<longrightarrow>
            calls (step w (Resume t)) t = Waiting
            \<and> cv (pool (step w (Resume t))) = cv (pool w) @ [t]
            \<and> connections (pool (step w (Resume t))) = [])
       \<and> (\<forall>c cs. connections (pool w) = c # cs \<and> calls w t = NotStarted \<longrightarrow>
            calls (step w (Acquire t)) t = Checking c
            \<and> connections (pool (step w (Acquire t))) = cs)
       \<and> (\<forall>c cs. connections (pool w) = c # cs \<and> calls w t = Woken \<longrightarrow>
            calls (step w (Resume t)) t = Checking c
            \<and> connections (pool (step w (Resume t))) = cs)"
proof -
  from assms have "uninitInv w" by (simp add: reachable_inv)
  then have e: "\<not> initialized (pool w) \<Longrightarrow> connections (pool w) = []"
    by (simp add: uninitInv_def)
  from assms have "cvInv w" using reachable_inv(1)[of evs] by (simp add: poolInv_def)
  then have nw: "calls w t = NotStarted \<Longrightarrow> t \<notin> set (cv (pool w))"
    by (simp add: cvInv_def)
  have 1: "\<not> initialized (pool w) \<and> calls w t = NotStarted \<longrightarrow>
            step w (Acquire t) =
              w\<lparr>calls := (calls w)(t := Raised (DbException ''Connection pool not initialized''))\<rparr>
            \<and> calls (step w (Acquire t)) t \<noteq> Waiting
            \<and> t \<notin> set (cv (pool (step w (Acquire t))))"
    using e nw by (simp add: lockedSection_def)
  have 2: "initialized (pool w) \<and> connections (pool w) = [] \<and> calls w t = NotStarted \<longrightarrow>
            calls (step w (Acquire t)) t = Waiting
            \<and> cv (pool (step w (Acquire t))) = cv (pool w) @ [t]
            \<and> connections (pool (step w (Acquire t))) = []"
    by (simp add: lockedSection_def)
  have 3: "initialized (pool w) \<and> connections (pool w) = [] \<and> calls w t = Woken \<longrightarrow>
            calls (step w (Resume t)) t = Waiting
            \<and> cv (pool (step w (Resume t))) = cv (pool w) @ [t]
            \<and> connections (pool (step w (Resume t))) = []"
    by (simp add: lockedSection_def)
  have 4: "\<forall>c cs. connections (pool w) = c # cs \<and> calls w t = NotStarted \<longrightarrow>
            calls (step w (Acquire t)) t = Checking c
            \<and> connections (pool (step w (Acquire t))) = cs"
    by (simp add: lockedSection_def)
  have 5: "\<forall>c cs. connections (pool w) = c # cs \<and> calls w t = Woken \<longrightarrow>
            calls (step w (Resume t)) t = Checking c
            \<and> connections (pool (step w (Resume t))) = cs"
    by (simp add: lockedSection_def)
  show ?thesis by (intro conjI) (fact 1, fact 2, fact 3, fact 4, fact 5)
qed

lemma lockedSection_outcomes_example:
  "\<not> initialized (pool (run world_init [])) \<and> calls (run world_init []) 3 = NotStarted
   \<and> calls (step (run world_init []) (Acquire 3)) 3
       = Raised (DbException ''Connection pool not initialized'')
   \<and> cv (pool (step (run world_init []) (Acquire 3))) = []
   \<and> initialized (pool (run world_init [Init ''h'' ''u'' ''p'' ''d'' 1, Acquire 0]))
   \<and> connections (pool (run world_init [Init ''h'' ''u'' ''p'' ''d'' 1, Acquire 0])) = []
   \<and> calls (step (run world_init [Init ''h'' ''u'' ''p'' ''d'' 1, Acquire 0]) (Acquire 1)) 1 = Waiting
   \<and> cv (pool (step (run world_init [Init ''h'' ''u'' ''p'' ''d'' 1, Acquire 0]) (Acquire 1))) = [1]
   \<and> connections (pool (run world_init [Init ''h'' ''u'' ''p'' ''d'' 1])) = [0]
   \<and> calls (step (run world_init [Init ''h'' ''u'' ''p'' ''d'' 1]) (Acquire 0)) 0 = Checking 0"
proof -
  let ?w0 = "run world_init []"
  let ?w1 = "run world_init [Init ''h'' ''u'' ''p'' ''d'' 1, Acquire 0]"
  let ?w2 = "run world_init [Init ''h'' ''u'' ''p'' ''d'' 1]"
  have a: "\<not> initialized (pool ?w0)" "calls ?w0 3 = NotStarted" "cv (pool ?w0) = []"
    by (simp_all add: pool_eval)
  have b: "initialized (pool ?w1)" "connections (pool ?w1) = []" "calls ?w1 1 = NotStarted"
    "cv (pool ?w1) = []"
    by (simp_all add: pool_eval)
  have c: "connections (pool ?w2) = [0]" "calls ?w2 0 = NotStarted"
    by (simp_all add: pool_eval)
  from lockedSection_outcomes[OF refl, of "[]" 3]
       lockedSection_outcomes[OF refl, of "[Init ''h'' ''u'' ''p'' ''d'' 1, Acquire 0]" 1]
       lockedSection_outcomes[OF refl, of "[Init ''h'' ''u'' ''p'' ''d'' 1]" 0]
       a b c
  show ?thesis by simp
qed

text \<open>
  Claim C8. Take any state the system reaches in which the pool is initialized, and any
  further sequence of events (calls of \<^verbatim>\<open>getConnection\<close>, their wake-ups and checks, releases
  of leases, cycles of the health check, further calls of \<^verbatim>\<open>init\<close>). The number of
  connections stays what it was; the queue of idle connections holds none twice; each of the
  connections is either idle or held by a call (by a lease, or by a call that is still checking
  it), never both and never neither; and no connection is held by two calls.
\<close>

theorem pool_partition:
  assumes "w = run world_init evs" and "initialized (pool w)" and "w' = run w evs'"
  shows "length (heap w') = length (heap w)
       \<and> distinct (connections (pool w'))
       \<and> (\<forall>c. c < length (heap w) \<longleftrightarrow>
                ((c \<in> set (connections (pool w'))) \<noteq> (\<exists>t. holds (calls w' t) c)))
       \<and> (\<forall>c t t'. holds (calls w' t) c \<and> holds (calls w' t') c \<longrightarrow> t = t')
       \<and> (\<forall>c t t'. calls w' t = Leased c \<and> calls w' t' = Leased c \<longrightarrow> t = t')"
proof -
  from assms(1,3) have "w' = run world_init (evs @ evs')" by (simp add: run_append)
  then have "poolInv w'" by (simp add: reachable_inv)
  then have ci: "connInv w'" by (simp add: poolInv_def)
  from run_fixed[OF assms(2), of evs'] assms(3) have hp: "heap w' = heap w"
    by (simp add: fixedPart_def)
  from ci have d: "distinct (connections (pool w'))"
    and ex: "\<And>c. c < length (heap w') \<longleftrightarrow>
                c \<in> set (connections (pool w')) \<or> (\<exists>u. holds (calls w' u) c)"
    and nq: "\<And>c u. holds (calls w' u) c \<Longrightarrow> c \<notin> set (connections (pool w'))"
    and un: "\<And>c u u'. holds (calls w' u) c \<Longrightarrow> holds (calls w' u') c \<Longrightarrow> u = u'"
    by (auto simp: connInv_def)
  have 1: "length (heap w') = length (heap w)" using hp by simp
  have 3: "\<forall>c. c < length (heap w) \<longleftrightarrow>
                ((c \<in> set (connections (pool w'))) \<noteq> (\<exists>t. holds (calls w' t) c))"
  proof
    fix c
    show "c < length (heap w) \<longleftrightarrow>
                ((c \<in> set (connections (pool w'))) \<noteq> (\<exists>t. holds (calls w' t) c))"
    proof (cases "c \<in> set (connections (pool w'))")
      case True
      with ex[of c] nq[of _ c] hp show ?thesis by auto
    next
      case False
      with ex[of c] hp show ?thesis by auto
    qed
  qed
  have 4: "\<forall>c t t'. holds (calls w' t) c \<and> holds (calls w' t') c \<longrightarrow> t = t'"
    using un by blast
  have 5: "\<forall>c t t'. calls w' t = Leased c \<and> calls w' t' = Leased c \<longrightarrow> t = t'"
  proof (intro allI impI)
    fix c t t' assume "calls w' t = Leased c \<and> calls w' t' = Leased c"
    then have "holds (calls w' t) c" "holds (calls w' t') c" by simp_all
    then show "t = t'" by (rule un)
  qed
  show ?thesis by (intro conjI) (fact 1, fact d, fact 3, fact 4, fact 5)
qed

theorem pool_partition_witness:
  "initialized (pool (run world_init [Init ''h'' ''u'' ''p'' ''d'' 2]))
   \<and> length (heap (run world_init [Init ''h'' ''u'' ''p'' ''d'' 2])) = 2
   \<and> length (heap (run (run world_init [Init ''h'' ''u'' ''p'' ''d'' 2])
        [Acquire 0, Check 0 PingTrue ReconnectDone 0, Acquire 1, Check 1 PingFalse ReconnectDone 0,
         Init ''x'' ''y'' ''z'' ''w'' 7, Release 0 0])) = 2
   \<and> connections (pool (run (run world_init [Init ''h'' ''u'' ''p'' ''d'' 2])
        [Acquire 0, Check 0 PingTrue ReconnectDone 0, Acquire 1, Check 1 PingFalse ReconnectDone 0,
         Init ''x'' ''y'' ''z'' ''w'' 7, Release 0 0])) = [0]
   \<and> calls (run (run world_init [Init ''h'' ''u'' ''p'' ''d'' 2])
        [Acquire 0, Check 0 PingTrue ReconnectDone 0, Acquire 1, Check 1 PingFalse ReconnectDone 0,
         Init ''x'' ''y'' ''z'' ''w'' 7, Release 0 0]) 1 = Leased 1
   \<and> (\<forall>c. c < 2 \<longleftrightarrow>
        ((c \<in> set (connections (pool (run (run world_init [Init ''h'' ''u'' ''p'' ''d'' 2])
           [Acquire 0, Check 0 PingTrue ReconnectDone 0, Acquire 1, Check 1 PingFalse ReconnectDone 0,
            Init ''x'' ''y'' ''z'' ''w'' 7, Release 0 0])))) \<noteq>
         (\<exists>t. holds (calls (run (run world_init [Init ''h'' ''u'' ''p'' ''d'' 2])
           [Acquire 0, Check 0 PingTrue ReconnectDone 0, Acquire 1, Check 1 PingFalse ReconnectDone 0,
            Init ''x'' ''y'' ''z'' ''w'' 7, Release 0 0]) t) c)))"
proof -
  let ?w = "run world_init [Init ''h'' ''u'' ''p'' ''d'' 2]"
  let ?evs = "[Acquire 0, Check 0 PingTrue ReconnectDone 0, Acquire 1, Check 1 PingFalse ReconnectDone 0,
         Init ''x'' ''y'' ''z'' ''w'' 7, Release 0 0]"
  have a: "initialized (pool ?w)" and b: "length (heap ?w) = 2"
    by (simp_all add: pool_eval)
  have c: "connections (pool (run ?w ?evs)) = [0]" and d: "calls (run ?w ?evs) 1 = Leased 1"
    by (simp_all add: pool_eval upt_rec)
  from pool_partition[OF refl a refl, of ?evs] a b c d
  show ?thesis by simp
qed

section \<open>The pool: initialized without connections\<close>

lemma emptyInv_step:
  assumes "emptyInv w1 w"
  shows "emptyInv w1 (step w ev)"
proof -
  from assms have i: "initialized (pool w)" and c: "connections (pool w) = []"
    and nh: "\<And>t c. \<not> holds (calls w t) c"
    and st: "\<And>t. calls w1 t = NotStarted \<Longrightarrow>
          calls w t = NotStarted \<or> calls w t = Waiting \<or> calls w t = Woken"
    by (simp_all add: emptyInv_def)
  have ls: "lockedSection t w =
      w\<lparr>pool := (pool w)\<lparr>cv := cv (pool w) @ [t]\<rparr>, calls := (calls w)(t := Waiting)\<rparr>" for t
    using i c by (simp add: lockedSection_def)
  have wait: "emptyInv w1 (w\<lparr>pool := (pool w)\<lparr>cv := xs\<rparr>, calls := (calls w)(t := s)\<rparr>)"
    if "s = Waiting \<or> s = Woken" for t s xs
    using that i c nh st by (auto simp: emptyInv_def)
  show ?thesis
  proof (cases ev)
    case (Init h u p d n)
    with assms i show ?thesis by (simp add: init_eq)
  next
    case (Acquire t)
    with assms wait[where s=Waiting and xs="cv (pool w) @ [t]" and t=t] show ?thesis by (simp add: ls del: fun_upd_apply)
  next
    case (Spurious t)
    with assms wait[where s=Woken and xs="remove1 t (cv (pool w))" and t=t] show ?thesis by (simp del: fun_upd_apply)
  next
    case (Resume t)
    with assms wait[where s=Waiting and xs="cv (pool w) @ [t]" and t=t] show ?thesis by (simp add: ls del: fun_upd_apply)
  next
    case (Check t pr rr k)
    have "checkSection t pr rr k w = w"
    proof (cases "calls w t")
      case (Checking c)
      with nh[of t c] show ?thesis by simp
    qed (simp_all add: checkSection_def)
    with Check assms show ?thesis by simp
  next
    case (Release t k)
    have "release t k w = w"
    proof (cases "calls w t")
      case (Leased c)
      with nh[of t c] show ?thesis by simp
    qed (simp_all add: release_def)
    with Release assms show ?thesis by simp
  next
    case (HealthCheck pings recs)
    with assms show ?thesis by (simp add: checkConnections_def split: option.splits)
  qed
qed

lemma emptyInv_run: "emptyInv w1 w \<Longrightarrow> emptyInv w1 (run w evs)"
  by (induction evs rule: rev_induct) (simp_all add: run_snoc emptyInv_step, simp add: run_def)

text \<open>
  Claim C10. Let \<^verbatim>\<open>init\<close> be called with pool size 0 on a pool that was not yet initialized.
  The pool is then initialized and its queue of idle connections is empty, and this stays so
  whatever happens afterwards. A call of \<^verbatim>\<open>getConnection\<close> made after that never gets the
  exception "Connection pool not initialized" and never gets a connection: whenever it enters
  the locked section it is put on the wait list, and in every later state it is waiting or
  has just been woken to wait again.
\<close>

theorem empty_pool_blocks:
  assumes "w0 = run world_init evs0" and "\<not> initialized (pool w0)"
    and "w1 = init h u p d 0 w0" and "calls w1 t = NotStarted" and "w = run w1 evs"
  shows "initialized (pool w1) \<and> connections (pool w1) = []
       \<and> initialized (pool w) \<and> connections (pool w) = []
       \<and> (calls w t = NotStarted \<or> calls w t = Waiting \<or> calls w t = Woken)
       \<and> (calls w t = NotStarted \<longrightarrow>
            calls (step w (Acquire t)) t = Waiting \<and> t \<in> set (cv (pool (step w (Acquire t)))))
       \<and> (calls w t = Woken \<longrightarrow>
            calls (step w (Resume t)) t = Waiting \<and> t \<in> set (cv (pool (step w (Resume t)))))"
proof -
  from assms(1) have "uninitInv w0" by (simp add: reachable_inv)
  with assms(2) have c0: "connections (pool w0) = []" "heap w0 = []"
    and cl: "\<And>u. calls w0 u = NotStarted \<or> (\<exists>e. calls w0 u = Raised e)"
    by (simp_all add: uninitInv_def)
  have w1: "initialized (pool w1)" "connections (pool w1) = []" "calls w1 = calls w0"
    using assms(2,3) c0 by (simp_all add: init_eq)
  have nh: "\<not> holds (calls w1 u) c" for u c using cl[of u] w1(3) by auto
  have "emptyInv w1 w1" using w1 nh by (simp add: emptyInv_def)
  then have "emptyInv w1 w" unfolding assms(5) by (rule emptyInv_run)
  then have i: "initialized (pool w)" and c: "connections (pool w) = []"
    and st: "calls w t = NotStarted \<or> calls w t = Waiting \<or> calls w t = Woken"
    using assms(4) by (simp_all add: emptyInv_def)
  have 6: "calls w t = NotStarted \<longrightarrow>
            calls (step w (Acquire t)) t = Waiting \<and> t \<in> set (cv (pool (step w (Acquire t))))"
    using i c by (simp add: lockedSection_def)
  have 7: "calls w t = Woken \<longrightarrow>
            calls (step w (Resume t)) t = Waiting \<and> t \<in> set (cv (pool (step w (Resume t))))"
    using i c by (simp add: lockedSection_def)
  show ?thesis by (intro conjI) (fact w1(1), fact w1(2), fact i, fact c, fact st, fact 6, fact 7)
qed

theorem empty_pool_blocks_witness:
  "\<not> initialized (pool (run world_init [Acquire 7]))
   \<and> calls (run world_init [Acquire 7]) 7 = Raised (DbException ''Connection pool not initialized'')
   \<and> calls (init ''h'' ''u'' ''p'' ''d'' 0 (run world_init [Acquire 7])) 1 = NotStarted
   \<and> calls (run (init ''h'' ''u'' ''p'' ''d'' 0 (run world_init [Acquire 7]))
              [Acquire 1, Spurious 1, Resume 1, Release 1 0]) 1 = Waiting
   \<and> connections (pool (run (init ''h'' ''u'' ''p'' ''d'' 0 (run world_init [Acquire 7]))
              [Acquire 1, Spurious 1, Resume 1, Release 1 0])) = []"
proof -
  have a: "\<not> initialized (pool (run world_init [Acquire 7]))"
    and b: "calls (init ''h'' ''u'' ''p'' ''d'' 0 (run world_init [Acquire 7])) 1 = NotStarted"
    and c: "calls (run world_init [Acquire 7]) 7 = Raised (DbException ''Connection pool not initialized'')"
    and d: "calls (run (init ''h'' ''u'' ''p'' ''d'' 0 (run world_init [Acquire 7]))
              [Acquire 1, Spurious 1, Resume 1, Release 1 0]) 1 = Waiting"
    by (simp_all add: pool_eval)
  from empty_pool_blocks[OF refl a refl b refl, of "[Acquire 1, Spurious 1, Resume 1, Release 1 0]"]
    a b c d
  show ?thesis by simp
qed

section \<open>The pool: waiting for the mutex\<close>

lemma locked_step_Move:
  "poolWorld (locked_step lw (Move e)) = poolWorld lw \<or>
   poolWorld (locked_step lw (Move e)) = step (poolWorld lw) e"
  by (cases e) (simp_all del: step.simps)

lemma locked_step_refines:
  "poolWorld (locked_step lw ev) = poolWorld lw \<or>
   (\<exists>e. poolWorld (locked_step lw ev) = step (poolWorld lw) e)"
proof (cases ev)
  case CheckerSleepOver
  then show ?thesis by simp
next
  case (Move e)
  with locked_step_Move[of lw e] show ?thesis by blast
qed

lemma locked_run_snoc: "locked_run lw (evs @ [ev]) = locked_step (locked_run lw evs) ev"
  by (simp add: locked_run_def)

lemma locked_run_refines:
  "\<exists>es. poolWorld (locked_run locked_world_init evs) = run world_init es"
proof (induction evs rule: rev_induct)
  case Nil
  have "poolWorld (locked_run locked_world_init []) = run world_init []"
    by (simp add: locked_run_def run_def locked_world_init_def)
  then show ?case by blast
next
  case (snoc ev evs)
  then obtain es where es: "poolWorld (locked_run locked_world_init evs) = run world_init es" by blast
  from locked_step_refines[of "locked_run locked_world_init evs" ev]
  show ?case
  proof
    assume "poolWorld (locked_step (locked_run locked_world_init evs) ev) =
            poolWorld (locked_run locked_world_init evs)"
    with es show ?thesis by (auto simp: locked_run_snoc)
  next
    assume "\<exists>e. poolWorld (locked_step (locked_run locked_world_init evs) ev) =
            step (poolWorld (locked_run locked_world_init evs)) e"
    then obtain e where "poolWorld (locked_step (locked_run locked_world_init evs) ev) =
            step (run world_init es) e" using es by auto
    then have "poolWorld (locked_run locked_world_init (evs @ [ev])) = run world_init (es @ [e])"
      by (simp add: locked_run_snoc run_snoc)
    then show ?thesis by blast
  qed
qed

text \<open>
  On a pool that was never initialized the queue is empty, so every pass of the check thread
  ends in the sleep with the mutex.
\<close>

lemma checker_sleeps_with_mutex:
  assumes "lw = locked_run locked_world_init evs" "\<not> initialized (pool (poolWorld lw))"
    "\<not> checkerHoldsMutex lw"
  shows "checkerHoldsMutex (locked_step lw (Move (HealthCheck pings recs)))"
proof -
  from locked_run_refines[of evs] assms(1) obtain es where "poolWorld lw = run world_init es"
    by auto
  then have "uninitInv (poolWorld lw)" by (simp add: reachable_inv)
  with assms(2) have "connections (pool (poolWorld lw)) = []" by (simp add: uninitInv_def)
  with assms(3) show ?thesis by simp
qed

text \<open>
  A call of \<^verbatim>\<open>getConnection\<close> made while the check thread sleeps with the mutex is blocked at
  its lock: it has thrown nothing and the pool is as it was. It stays so through every move
  of the other threads until the sleep is over.
\<close>

lemma acquire_blocked_at_mutex:
  assumes "checkerHoldsMutex lw" "calls (poolWorld lw) t = NotStarted"
  shows "poolWorld (locked_step lw (Move (Acquire t))) = poolWorld lw
       \<and> t \<in> set (lockWaiters (locked_step lw (Move (Acquire t))))
       \<and> checkerHoldsMutex (locked_step lw (Move (Acquire t)))"
  using assms by simp

lemma step_keeps_not_started:
  assumes "calls w t = NotStarted" "\<not> needsMutex e"
  shows "calls (step w e) t = NotStarted"
proof (cases e)
  case (Spurious u)
  with assms show ?thesis by auto
next
  case (Check u pr rr k)
  with assms show ?thesis
    by (cases pr; cases rr; cases "calls w u"; cases "u = t") (simp_all add: checkSection_def)
qed (use assms in simp_all)

lemma blocked_while_checker_sleeps:
  assumes "checkerHoldsMutex lw" "calls (poolWorld lw) t = NotStarted"
  shows "checkerHoldsMutex (locked_run lw (map Move es))
       \<and> calls (poolWorld (locked_run lw (map Move es))) t = NotStarted"
proof (induction es rule: rev_induct)
  case Nil
  with assms show ?case by (simp add: locked_run_def)
next
  case (snoc e es)
  let ?lw = "locked_run lw (map Move es)"
  from snoc have h: "checkerHoldsMutex ?lw" and n: "calls (poolWorld ?lw) t = NotStarted" by simp_all
  have "checkerHoldsMutex (locked_step ?lw (Move e))
       \<and> calls (poolWorld (locked_step ?lw (Move e))) t = NotStarted"
  proof (cases "needsMutex e")
    case True
    with h n show ?thesis by (cases e) simp_all
  next
    case False
    with h n step_keeps_not_started[OF n False] show ?thesis by (cases e) simp_all
  qed
  then show ?case by (simp add: locked_run_snoc)
qed

text \<open>
  Claim C7, evaluated on the code. A pool is constructed and never initialized. The check
  thread makes its first pass, finds the queue empty and sleeps for a second with the mutex.
  A call of \<^verbatim>\<open>getConnection\<close> made now does not fail at once: it has thrown nothing and is
  blocked at its lock, also when it is tried again. Only after the sleep of the check thread
  is over does the call enter the locked section and throw "Connection pool not
  initialized"; it is never put on the wait list of the condition variable. The rest of the
  claim holds of the code: lemma \<open>lockedSection_outcomes\<close> for what a call does once it
  holds the mutex, lemmas \<open>release_wakes_a_waiter\<close> and \<open>idle_connection_wakes_a_waiter\<close>
  for the end of the wait.
\<close>

theorem uninitialized_acquire_waits_for_mutex:
  "checkerHoldsMutex
     (locked_run locked_world_init [Move (HealthCheck (\<lambda>c. PingTrue) (\<lambda>c. ReconnectDone))])
   \<and> calls (poolWorld (locked_run locked_world_init
        [Move (HealthCheck (\<lambda>c. PingTrue) (\<lambda>c. ReconnectDone)), Move (Acquire 0)])) 0 = NotStarted
   \<and> lockWaiters (locked_run locked_world_init
        [Move (HealthCheck (\<lambda>c. PingTrue) (\<lambda>c. ReconnectDone)), Move (Acquire 0)]) = [0]
   \<and> calls (poolWorld (locked_run locked_world_init
        [Move (HealthCheck (\<lambda>c. PingTrue) (\<lambda>c. ReconnectDone)), Move (Acquire 0),
         Move (Acquire 0)])) 0 = NotStarted
   \<and> calls (poolWorld (locked_run locked_world_init
        [Move (HealthCheck (\<lambda>c. PingTrue) (\<lambda>c. ReconnectDone)), Move (Acquire 0),
         CheckerSleepOver, Move (Acquire 0)])) 0
       = Raised (DbException ''Connection pool not initialized'')
   \<and> cv (pool (poolWorld (locked_run locked_world_init
        [Move (HealthCheck (\<lambda>c. PingTrue) (\<lambda>c. ReconnectDone)), Move (Acquire 0),
         CheckerSleepOver, Move (Acquire 0)]))) = []"
  by (simp add: locked_run_def locked_world_init_def world_init_def lockedSection_def)

section \<open>The pool: no wake-up is lost\<close>

text \<open>
  The deleter of a lease gives the connection back and wakes one of the waiting calls, as the
  exception handler does.
\<close>

lemma release_wakes_a_waiter:
  assumes "w = run world_init evs" and "calls w t = Leased c" and "cv (pool w) \<noteq> []"
  shows "connections (pool (step w (Release t k))) = connections (pool w) @ [c]
       \<and> (\<exists>u \<in> set (cv (pool w)). calls w u = Waiting \<and> calls (step w (Release t k)) u = Woken
             \<and> cv (pool (step w (Release t k))) = remove1 u (cv (pool w)))"
proof -
  from assms(1) have "poolInv w" by (simp add: reachable_inv)
  then have cvi: "cvInv w" by (simp add: poolInv_def)
  from cvi assms(2) have tn: "t \<notin> set (cv (pool w))" by (simp add: cvInv_def)
  from giveBack_effect[OF cvi, of c k] assms(3) obtain u where u: "u \<in> set (cv (pool w))"
    "calls w u = Waiting" "cv (pool (giveBack c k w)) = remove1 u (cv (pool w))"
    "calls (giveBack c k w) = (calls w)(u := Woken)"
    and cs: "connections (pool (giveBack c k w)) = connections (pool w) @ [c]" by blast
  from u(1) tn have "u \<noteq> t" by auto
  with u cs assms(2) show ?thesis
    by (intro conjI bexI[of _ u]) (simp_all add: release_def Let_def)
qed

lemma woken_upd_other:
  assumes "calls w t \<noteq> Woken" "s \<noteq> Woken"
  shows "{u. ((calls w)(t := s)) u = Woken} = {u. calls w u = Woken}"
  using assms by auto

lemma woken_upd_leave:
  assumes "calls w t = Woken" "s \<noteq> Woken"
  shows "{u. ((calls w)(t := s)) u = Woken} = {u. calls w u = Woken} - {t}"
  using assms by auto

lemma woken_upd_enter:
  "{u. ((calls w)(t := Woken)) u = Woken} = insert t {u. calls w u = Woken}"
  by auto

lemma wakeInv_cong:
  assumes "cv (pool w') = cv (pool w)" "connections (pool w') = connections (pool w)"
    "calls w' = calls w"
  shows "wakeInv w' = wakeInv w"
  using assms by (simp add: wakeInv_def)

lemma lockedSection_wake:
  assumes "wakeInv w" "calls w t = NotStarted \<or> calls w t = Woken"
  shows "wakeInv (lockedSection t w)"
proof -
  from assms(1) have fin: "finite {u. calls w u = Woken}"
    and le: "cv (pool w) \<noteq> [] \<Longrightarrow> length (connections (pool w)) \<le> card {u. calls w u = Woken}"
    by (simp_all add: wakeInv_def)
  have sub: "{u. ((calls w)(t := s)) u = Woken} \<subseteq> {u. calls w u = Woken}" if "s \<noteq> Woken" for s
    using that by auto
  have fin': "finite {u. ((calls w)(t := s)) u = Woken}" if "s \<noteq> Woken" for s
    using finite_subset[OF sub[OF that] fin] .
  show ?thesis
  proof (cases "connections (pool w)")
    case Nil
    then show ?thesis
      using fin' by (simp add: lockedSection_def wakeInv_def del: fun_upd_apply)
  next
    case (Cons c cs)
    have eq: "lockedSection t w =
        w\<lparr>pool := (pool w)\<lparr>connections := cs\<rparr>, calls := (calls w)(t := Checking c)\<rparr>"
      using Cons by (simp add: lockedSection_def)
    have "length cs \<le> card {u. ((calls w)(t := Checking c)) u = Woken}" if ne: "cv (pool w) \<noteq> []"
    proof (cases "calls w t = Woken")
      case True
      then have "{u. ((calls w)(t := Checking c)) u = Woken} = {u. calls w u = Woken} - {t}"
        by (intro woken_upd_leave) simp_all
      moreover have "t \<in> {u. calls w u = Woken}" using True by simp
      ultimately have "card {u. ((calls w)(t := Checking c)) u = Woken} = card {u. calls w u = Woken} - 1"
        using fin by simp
      with le[OF ne] Cons show ?thesis by simp
    next
      case False
      then have "{u. ((calls w)(t := Checking c)) u = Woken} = {u. calls w u = Woken}"
        by (intro woken_upd_other) simp_all
      with le[OF ne] Cons show ?thesis by simp
    qed
    with fin'[of "Checking c"] show ?thesis
      by (simp add: eq wakeInv_def del: fun_upd_apply)
  qed
qed

lemma wake_one_wake:
  assumes "finite {u. calls w u = Woken}" "calls w u = Waiting"
    "length (connections (pool w)) \<le> card {u. calls w u = Woken} + 1"
  shows "wakeInv (w\<lparr>pool := (pool w)\<lparr>cv := xs\<rparr>, calls := (calls w)(u := Woken)\<rparr>)"
proof -
  have "u \<notin> {v. calls w v = Woken}" using assms(2) by simp
  then have "card (insert u {v. calls w v = Woken}) = card {v. calls w v = Woken} + 1"
    using assms(1) by simp
  with assms(1,3) show ?thesis
    by (simp add: wakeInv_def woken_upd_enter del: fun_upd_apply)
qed

lemma giveBack_wake:
  assumes "wakeInv w" "cvInv w" "holds (calls w t) c" "s \<noteq> Woken"
  shows "wakeInv ((giveBack c k w)\<lparr>calls := (calls (giveBack c k w))(t := s)\<rparr>)"
proof -
  from assms(3) have nw: "calls w t \<noteq> Waiting" and nk: "calls w t \<noteq> Woken" by auto
  let ?w1 = "w\<lparr>pool := (pool w)\<lparr>connections := connections (pool w) @ [c]\<rparr>,
                calls := (calls w)(t := s)\<rparr>"
  have eq: "(giveBack c k w)\<lparr>calls := (calls (giveBack c k w))(t := s)\<rparr> = notify_one k ?w1"
    using assms(2) nw by (rule giveBack_then_set)
  from assms(1) have fin: "finite {u. calls w u = Woken}"
    and le: "cv (pool w) \<noteq> [] \<Longrightarrow> length (connections (pool w)) \<le> card {u. calls w u = Woken}"
    by (simp_all add: wakeInv_def)
  have same: "{u. calls ?w1 u = Woken} = {u. calls w u = Woken}"
    using woken_upd_other[OF nk assms(4)] by simp
  from notify_one_cases[of k ?w1] show ?thesis
  proof
    assume "notify_one k ?w1 = ?w1 \<and> cv (pool ?w1) = []"
    with fin same show ?thesis by (simp add: eq wakeInv_def del: fun_upd_apply)
  next
    assume "\<exists>u \<in> set (cv (pool ?w1)). notify_one k ?w1 =
        ?w1\<lparr>pool := (pool ?w1)\<lparr>cv := remove1 u (cv (pool ?w1))\<rparr>, calls := (calls ?w1)(u := Woken)\<rparr>"
    then obtain u where uin: "u \<in> set (cv (pool w))" and n1: "notify_one k ?w1 =
        ?w1\<lparr>pool := (pool ?w1)\<lparr>cv := remove1 u (cv (pool ?w1))\<rparr>, calls := (calls ?w1)(u := Woken)\<rparr>"
      by auto
    from uin assms(2) have uw: "calls w u = Waiting" by (simp add: cvInv_def)
    with nw have "u \<noteq> t" by auto
    with uw have uw1: "calls ?w1 u = Waiting" by simp
    from uin have "cv (pool w) \<noteq> []" by auto
    from le[OF this] same have "length (connections (pool ?w1)) \<le> card {u. calls ?w1 u = Woken} + 1"
      by simp
    moreover have "finite {u. calls ?w1 u = Woken}" using fin same by simp
    ultimately have "wakeInv (?w1\<lparr>pool := (pool ?w1)\<lparr>cv := remove1 u (cv (pool ?w1))\<rparr>,
        calls := (calls ?w1)(u := Woken)\<rparr>)"
      using uw1 by (intro wake_one_wake) simp_all
    with n1 eq show ?thesis by simp
  qed
qed

lemma step_wake:
  assumes "poolInv w" "uninitInv w" "wakeInv w"
  shows "wakeInv (step w ev)"
proof (cases ev)
  case (Init h u p d n)
  show ?thesis
  proof (cases "initialized (pool w)")
    case True
    with Init assms(3) show ?thesis by (simp add: init_eq)
  next
    case False
    with assms(2) have "cv (pool w) = []" by (simp add: uninitInv_def)
    with False Init assms(3) show ?thesis by (simp add: init_eq wakeInv_def)
  qed
next
  case (Acquire t)
  with assms(3) show ?thesis by (simp add: lockedSection_wake)
next
  case (Spurious t)
  show ?thesis
  proof (cases "calls w t = Waiting")
    case True
    from assms(3) have fin: "finite {u. calls w u = Woken}"
      and le: "cv (pool w) \<noteq> [] \<Longrightarrow> length (connections (pool w)) \<le> card {u. calls w u = Woken}"
      by (simp_all add: wakeInv_def)
    from True assms(1) have "t \<in> set (cv (pool w))" by (simp add: poolInv_def cvInv_def)
    then have "cv (pool w) \<noteq> []" by auto
    from le[OF this] have "length (connections (pool w)) \<le> card {u. calls w u = Woken} + 1" by simp
    from wake_one_wake[OF fin True this, of "remove1 t (cv (pool w))"] True Spurious
    show ?thesis by (simp del: fun_upd_apply)
  next
    case False
    with Spurious assms(3) show ?thesis by simp
  qed
next
  case (Resume t)
  with assms(3) show ?thesis by (simp add: lockedSection_wake)
next
  case (Check t pr rr k)
  from assms(1) have cvi: "cvInv w" by (simp add: poolInv_def)
  show ?thesis
  proof (cases "calls w t")
    case (Checking c)
    have h: "holds (calls w t) c" using Checking by simp
    have lease: "wakeInv (w\<lparr>calls := (calls w)(t := Leased c)\<rparr>)"
      using assms(3) woken_upd_other[of w t "Leased c"] Checking
      by (simp add: wakeInv_def del: fun_upd_apply)
    have fail: "wakeInv ((giveBack c k w)\<lparr>calls := (calls (giveBack c k w))(t := Raised e)\<rparr>)" for e
      using assms(3) cvi h by (rule giveBack_wake) simp
    from Check Checking lease fail show ?thesis
      by (cases pr; cases rr) (simp_all add: checkSection_def Let_def)
  qed (use Check assms(3) in \<open>simp_all add: checkSection_def\<close>)
next
  case (Release t k)
  from assms(1) have cvi: "cvInv w" by (simp add: poolInv_def)
  show ?thesis
  proof (cases "calls w t")
    case (Leased c)
    have h: "holds (calls w t) c" using Leased by simp
    have "wakeInv ((giveBack c k w)\<lparr>calls := (calls (giveBack c k w))(t := Finished)\<rparr>)"
      using assms(3) cvi h by (rule giveBack_wake) simp
    with Release Leased show ?thesis by (simp add: release_def Let_def)
  qed (use Release assms(3) in \<open>simp_all add: release_def\<close>)
next
  case (HealthCheck pings recs)
  with assms(3) show ?thesis by (simp add: checkConnections_def split: option.splits)
qed

lemma wakeInv_init: "wakeInv world_init"
  by (simp add: wakeInv_def world_init_def)

lemma reachable_wake: "wakeInv (run world_init evs)"
proof (induction evs rule: rev_induct)
  case Nil
  show ?case by (simp add: run_def wakeInv_init)
next
  case (snoc ev evs)
  from step_wake[OF reachable_inv(1)[of evs] reachable_inv(2)[of evs] snoc, of ev]
  show ?case by (simp add: run_snoc)
qed

text \<open>
  So a call blocks no longer than until an idle connection exists: in every state the system
  reaches, if a connection is idle while calls are on the wait list, then some call has been
  woken and will take a connection when it tests the loop condition again.
\<close>

lemma idle_connection_wakes_a_waiter:
  assumes "w = run world_init evs" "cv (pool w) \<noteq> []" "connections (pool w) \<noteq> []"
  shows "\<exists>u. calls w u = Woken"
proof -
  from assms(1) have "wakeInv w" by (simp add: reachable_wake)
  with assms(2) have fin: "finite {u. calls w u = Woken}"
    and "length (connections (pool w)) \<le> card {u. calls w u = Woken}"
    by (simp_all add: wakeInv_def)
  moreover from assms(3) obtain c cs where "connections (pool w) = c # cs"
    by (cases "connections (pool w)") auto
  ultimately have "Suc (length cs) \<le> card {u. calls w u = Woken}" by simp
  then have "0 < card {u. calls w u = Woken}" by arith
  then have "{u. calls w u = Woken} \<noteq> {}" by (simp add: card_gt_0_iff)
  then show ?thesis by blast
qed

end
